theory Spec2Isabelle
  imports Main
begin

section \<open>Characters\<close>

text \<open>
  The program works on Python \<open>str\<close> values. They are modelled as \<^typ>\<open>string\<close>, a list
  of characters with code points 0..255; the character classes below are the ones that
  Python's \<open>re\<close> module and \<open>str.strip\<close> use on that range.
\<close>

definition code :: "char \<Rightarrow> int" where
  "code c = of_char c"

definition is_space :: "char \<Rightarrow> bool" where
  \<comment> \<open>\<open>\s\<close> and \<open>str.isspace\<close>: TAB..CR, FS..US, space, NEL, NBSP\<close>
  "is_space c = (let n = code c in (9 \<le> n \<and> n \<le> 13) \<or> (28 \<le> n \<and> n \<le> 32) \<or> n = 133 \<or> n = 160)"

definition is_digit :: "char \<Rightarrow> bool" where
  \<comment> \<open>\<open>\d\<close>\<close>
  "is_digit c = (let n = code c in 48 \<le> n \<and> n \<le> 57)"

definition is_upper :: "char \<Rightarrow> bool" where
  \<comment> \<open>\<open>[A-Z]\<close>\<close>
  "is_upper c = (let n = code c in 65 \<le> n \<and> n \<le> 90)"

definition is_lower :: "char \<Rightarrow> bool" where
  \<comment> \<open>\<open>[a-z]\<close>\<close>
  "is_lower c = (let n = code c in 97 \<le> n \<and> n \<le> 122)"

definition is_word :: "char \<Rightarrow> bool" where
  \<comment> \<open>\<open>\w\<close>: alphanumeric characters and the underscore\<close>
  "is_word c = (let n = code c in
     (48 \<le> n \<and> n \<le> 57) \<or> (65 \<le> n \<and> n \<le> 90) \<or> n = 95 \<or> (97 \<le> n \<and> n \<le> 122) \<or>
     n = 170 \<or> n = 178 \<or> n = 179 \<or> n = 181 \<or> n = 185 \<or> n = 186 \<or> (188 \<le> n \<and> n \<le> 190) \<or>
     (192 \<le> n \<and> n \<le> 214) \<or> (216 \<le> n \<and> n \<le> 246) \<or> (248 \<le> n \<and> n \<le> 255))"

definition newline :: char where
  "newline = CHR 0x0A"

definition any_char :: "char \<Rightarrow> bool" where
  \<comment> \<open>\<open>.\<close> without DOTALL: everything but the line feed\<close>
  "any_char c = (c \<noteq> newline)"

definition lower_char :: "char \<Rightarrow> char" where
  "lower_char c = (if is_upper c then char_of (code c + 32) else c)"

definition strip :: "string \<Rightarrow> string" where
  \<comment> \<open>\<open>str.strip()\<close>\<close>
  "strip s = rev (dropWhile is_space (rev (dropWhile is_space s)))"

section \<open>Regular expressions with backtracking\<close>

text \<open>
  The patterns of the program, as syntax trees. Quantifiers apply to single characters
  and classes only, as they do everywhere in the source. A group is numbered as in the
  pattern text. With \<open>re.IGNORECASE\<close> a literal is compared without regard to case; the
  classes that the source uses with the flag (\<open>\s\<close>, \<open>.\<close>, and letter ranges given in
  both cases) match the same characters with and without it.
\<close>

datatype re =
    Eps
  | Lit char                                  \<comment> \<open>a literal character\<close>
  | Cls "char \<Rightarrow> bool"                        \<comment> \<open>a class: \<open>[...]\<close>, \<open>\d\<close>, \<open>\w\<close>, \<open>\s\<close>, \<open>.\<close>\<close>
  | Bnd                                       \<comment> \<open>\<open>\b\<close>\<close>
  | Bol                                       \<comment> \<open>\<open>^\<close>\<close>
  | Eol                                       \<comment> \<open>\<open>$\<close>\<close>
  | Seq re re
  | Alt re re                                 \<comment> \<open>\<open>r|s\<close>, the left branch tried first\<close>
  | Rep nat "nat option" bool "char \<Rightarrow> bool"  \<comment> \<open>\<open>c{lo,hi}\<close>; the flag is True for greedy\<close>
  | Look re                                   \<comment> \<open>\<open>(?=r)\<close>\<close>
  | Grp nat re                                \<comment> \<open>a capturing group\<close>

type_synonym groups = "(nat \<times> string) list"

text \<open>
  A matcher state: the character before the current position (None at the start of the
  text), the text from the current position on, and the groups captured so far.
\<close>

type_synonym mstate = "char option \<times> string \<times> groups"

definition lit_eq :: "bool \<Rightarrow> char \<Rightarrow> char \<Rightarrow> bool" where
  \<comment> \<open>comparison with a pattern literal; the flag is \<open>re.IGNORECASE\<close>\<close>
  "lit_eq ic c x = (if ic then lower_char x = lower_char c else x = c)"

definition word_opt :: "char option \<Rightarrow> bool" where
  "word_opt p = (case p of None \<Rightarrow> False | Some c \<Rightarrow> is_word c)"

definition next_char :: "string \<Rightarrow> char option" where
  "next_char a = (case a of [] \<Rightarrow> None | x # _ \<Rightarrow> Some x)"

text \<open>
  \<open>runs P hi p a\<close>: the positions reached from \<open>a\<close> by consuming 0, 1, 2, ... characters
  of class \<open>P\<close>, at most \<open>hi\<close> of them, shortest first.
\<close>

fun runs :: "(char \<Rightarrow> bool) \<Rightarrow> nat option \<Rightarrow> char option \<Rightarrow> string \<Rightarrow> (char option \<times> string) list" where
  "runs P hi p [] = [(p, [])]"
| "runs P hi p (x # xs) =
     (p, x # xs) # (if P x \<and> hi \<noteq> Some 0 then runs P (map_option (\<lambda>k. k - 1) hi) (Some x) xs else [])"

text \<open>
  \<open>ms ic r st\<close>: every way \<open>r\<close> matches from state \<open>st\<close>, as the list of end states in the
  order in which a backtracking matcher finds them. The head is the match Python returns.
\<close>

fun ms :: "bool \<Rightarrow> re \<Rightarrow> mstate \<Rightarrow> mstate list" where
  "ms ic Eps st = [st]"
| "ms ic (Lit c) (p, a, g) =
     (case a of [] \<Rightarrow> [] | x # xs \<Rightarrow> if lit_eq ic c x then [(Some x, xs, g)] else [])"
| "ms ic (Cls P) (p, a, g) =
     (case a of [] \<Rightarrow> [] | x # xs \<Rightarrow> if P x then [(Some x, xs, g)] else [])"
| "ms ic Bnd (p, a, g) = (if word_opt p \<noteq> word_opt (next_char a) then [(p, a, g)] else [])"
| "ms ic Bol (p, a, g) = (if p = None then [(p, a, g)] else [])"
| "ms ic Eol (p, a, g) = (if a = [] \<or> a = [newline] then [(p, a, g)] else [])"
| "ms ic (Seq r1 r2) st = concat (map (ms ic r2) (ms ic r1 st))"
| "ms ic (Alt r1 r2) st = ms ic r1 st @ ms ic r2 st"
| "ms ic (Rep lo hi greedy P) (p, a, g) =
     (let cands = map (\<lambda>(p', a'). (p', a', g)) (drop lo (runs P hi p a))
      in if greedy then rev cands else cands)"
| "ms ic (Look r) st = (if ms ic r st = [] then [] else [st])"
| "ms ic (Grp n r) (p, a, g) =
     map (\<lambda>(p', a', g'). (p', a', (n, take (length a - length a') a) # g')) (ms ic r (p, a, g))"

definition first_match :: "bool \<Rightarrow> re \<Rightarrow> bool \<Rightarrow> char option \<Rightarrow> string \<Rightarrow> mstate option" where
  \<comment> \<open>the match at the current position; with \<open>adv\<close> an empty match is refused\<close>
  "first_match ic r adv p a =
     find (\<lambda>(p', a', g). \<not> adv \<or> length a' < length a) (ms ic r (p, a, []))"

fun str :: "string \<Rightarrow> re" where
  "str [] = Eps"
| "str (c # cs) = Seq (Lit c) (str cs)"

fun seqs :: "re list \<Rightarrow> re" where
  "seqs [] = Eps"
| "seqs [r] = r"
| "seqs (r # rs) = Seq r (seqs rs)"

fun alts :: "re list \<Rightarrow> re" where
  "alts [] = Eps"
| "alts [r] = r"
| "alts (r # rs) = Alt r (alts rs)"

section \<open>The functions of Python's \<open>re\<close> module\<close>

text \<open>
  \<open>finditer\<close> scans the text for the successive non-overlapping matches, leftmost first.
  Each is returned with the text skipped since the previous match; the second component
  is the text after the last match. After an empty match the next one must not be empty
  at the same position (flag \<open>adv\<close>), as in Python 3.7 and later.
\<close>

type_synonym found = "string \<times> string \<times> groups"

function finditer :: "bool \<Rightarrow> re \<Rightarrow> bool \<Rightarrow> char option \<Rightarrow> string \<Rightarrow> found list \<times> string" where
  "finditer ic r adv p a =
     (case first_match ic r adv p a of
        Some (p', a', g) \<Rightarrow>
          (let m = take (length a - length a') a;
               (fs, rest) = (if m = [] then finditer ic r True p a else finditer ic r False p' a')
           in (([], m, g) # fs, rest))
      | None \<Rightarrow>
          (case a of
             [] \<Rightarrow> ([], [])
           | x # xs \<Rightarrow>
               (case finditer ic r False (Some x) xs of
                  ([], rest) \<Rightarrow> ([], x # rest)
                | ((gap, m, g) # fs, rest) \<Rightarrow> ((x # gap, m, g) # fs, rest))))"
  by pat_completeness auto
termination
  by (relation "measure (\<lambda>(ic, r, adv, p, a). 2 * length a + (if adv then 0 else 1))")
     (auto simp: first_match_def find_Some_iff)

definition substitute :: "(groups \<Rightarrow> string) \<Rightarrow> found list \<times> string \<Rightarrow> string" where
  \<comment> \<open>the text with every match replaced\<close>
  "substitute repl res =
     (case res of (fs, rest) \<Rightarrow> concat (map (\<lambda>(gap, m, g). gap @ repl g) fs) @ rest)"

definition re_sub :: "bool \<Rightarrow> re \<Rightarrow> (groups \<Rightarrow> string) \<Rightarrow> string \<Rightarrow> string" where
  \<comment> \<open>\<open>re.sub(pattern, repl, s)\<close>; \<open>repl\<close> builds the replacement from the groups\<close>
  "re_sub ic r repl s = substitute repl (finditer ic r False None s)"

definition re_findall :: "bool \<Rightarrow> re \<Rightarrow> string \<Rightarrow> string list" where
  \<comment> \<open>\<open>re.findall\<close> for a pattern without capturing groups: the matched texts\<close>
  "re_findall ic r s = map (\<lambda>(gap, m, g). m) (fst (finditer ic r False None s))"

definition re_split :: "bool \<Rightarrow> re \<Rightarrow> string \<Rightarrow> string list" where
  \<comment> \<open>\<open>re.split\<close> for a pattern without capturing groups: the texts between matches\<close>
  "re_split ic r s =
     (case finditer ic r False None s of (fs, rest) \<Rightarrow> map (\<lambda>(gap, m, g). gap) fs @ [rest])"

fun search_from :: "bool \<Rightarrow> re \<Rightarrow> char option \<Rightarrow> string \<Rightarrow> groups option" where
  "search_from ic r p [] =
     (case first_match ic r False p [] of Some (p', a', g) \<Rightarrow> Some g | None \<Rightarrow> None)"
| "search_from ic r p (x # xs) =
     (case first_match ic r False p (x # xs) of
        Some (p', a', g) \<Rightarrow> Some g
      | None \<Rightarrow> search_from ic r (Some x) xs)"

definition re_search :: "bool \<Rightarrow> re \<Rightarrow> string \<Rightarrow> groups option" where
  \<comment> \<open>\<open>re.search\<close>: the leftmost match, None when there is none; a match object is
      represented by its groups\<close>
  "re_search ic r s = search_from ic r None s"

definition re_match :: "bool \<Rightarrow> re \<Rightarrow> string \<Rightarrow> groups option" where
  \<comment> \<open>\<open>re.match\<close>: a match at the start of the text only\<close>
  "re_match ic r s =
     (case first_match ic r False None s of Some (p', a', g) \<Rightarrow> Some g | None \<Rightarrow> None)"

datatype error = AttributeError | IndexError

definition match_group :: "groups \<Rightarrow> nat \<Rightarrow> string option" where
  \<comment> \<open>\<open>match.group(n)\<close>: None for a group that took no part in the match\<close>
  "match_group g n = map_of g n"

definition strip_opt :: "string option \<Rightarrow> error + string" where
  \<comment> \<open>\<open>.strip()\<close> on a value that may be None\<close>
  "strip_opt v = (case v of None \<Rightarrow> Inl AttributeError | Some s \<Rightarrow> Inr (strip s))"

definition index0 :: "string \<Rightarrow> error + char" where
  \<comment> \<open>\<open>s[0]\<close>\<close>
  "index0 s = (case s of [] \<Rightarrow> Inl IndexError | c # _ \<Rightarrow> Inr c)"

definition group_text :: "groups \<Rightarrow> nat \<Rightarrow> string" where
  \<comment> \<open>a group reference \<open>\n\<close> in a replacement template: empty for an unmatched group\<close>
  "group_text g n = (case map_of g n of None \<Rightarrow> [] | Some s \<Rightarrow> s)"

fun join :: "string \<Rightarrow> string list \<Rightarrow> string" where
  "join sep [] = []"
| "join sep [x] = x"
| "join sep (x # xs) = x @ sep @ join sep xs"

definition set_iter :: "string list \<Rightarrow> string list" where
  \<comment> \<open>the elements of \<open>set(xs)\<close> as a sequence. Python leaves the order of iteration over a
      set open; the model takes the order of first occurrence.\<close>
  "set_iter xs = remdups xs"

definition starts_with :: "string \<Rightarrow> string \<Rightarrow> bool" where
  \<comment> \<open>\<open>s.startswith(pre)\<close>\<close>
  "starts_with s pre = (take (length pre) s = pre)"

section \<open>Field extraction: \<open>extract_school_data\<close>\<close>

type_synonym school_record = "(string \<times> string) list"

fun dict_set :: "string \<Rightarrow> string \<Rightarrow> school_record \<Rightarrow> school_record" where
  \<comment> \<open>\<open>data[k] = v\<close> on a dict in insertion order\<close>
  "dict_set k v [] = [(k, v)]"
| "dict_set k v ((k', v') # d) = (if k' = k then (k, v) # d else (k', v') # dict_set k v d)"

definition initial_data :: school_record where
  "initial_data =
     [(''School Name'', ''NA''), (''Location'', ''NA''), (''Address'', ''NA''),
      (''City/ Town'', ''NA''), (''County'', ''NA''), (''Country'', ''NA''),
      (''Website'', ''NA''), (''Phone'', ''NA''), (''Email'', ''NA''), (''Fax'', ''NA'')]"

definition whitespace_run :: re where
  \<comment> \<open>\<open>\s+\<close>\<close>
  "whitespace_run = Rep 1 None True is_space"

definition normalize_whitespace :: "string \<Rightarrow> string" where
  \<comment> \<open>\<open>re.sub(r'\s+', ' ', text)\<close>\<close>
  "normalize_whitespace text = re_sub False whitespace_run (\<lambda>g. '' '') text"

definition boundary :: "string list \<Rightarrow> re" where
  \<comment> \<open>\<open>(?=L1:|L2:|...|$)\<close>\<close>
  "boundary ls = Look (alts (map (\<lambda>l. str (l @ '':'')) ls @ [Eol]))"

definition name_pattern :: re where
  "name_pattern =
     seqs [Bol, Grp 1 (Rep 0 None False any_char),
           boundary [''Location'', ''Address'', ''City/ Town'', ''County'', ''Country'',
                     ''Website'', ''Phone'', ''Email'', ''Fax'']]"

definition field_pattern :: "string \<Rightarrow> string list \<Rightarrow> re" where
  \<comment> \<open>\<open>Label:\s*(.*?)(?=L1:|L2:|...|$)\<close>\<close>
  "field_pattern l ls =
     seqs [str (l @ '':''), Rep 0 None True is_space, Grp 1 (Rep 0 None False any_char),
           boundary ls]"

definition fields :: "(string \<times> re) list" where
  "fields =
     [(''Location'', field_pattern ''Location''
         [''Address'', ''City/ Town'', ''County'', ''Country'', ''Website'', ''Phone'', ''Email'', ''Fax'']),
      (''Address'', field_pattern ''Address''
         [''Location'', ''City/ Town'', ''County'', ''Country'', ''Website'', ''Phone'', ''Email'', ''Fax'']),
      (''City/ Town'', field_pattern ''City/ Town''
         [''Location'', ''Address'', ''County'', ''Country'', ''Website'', ''Phone'', ''Email'', ''Fax'']),
      (''County'', field_pattern ''County''
         [''Location'', ''Address'', ''City/ Town'', ''Country'', ''Website'', ''Phone'', ''Email'', ''Fax'']),
      (''Country'', field_pattern ''Country''
         [''Location'', ''Address'', ''City/ Town'', ''County'', ''Website'', ''Phone'', ''Email'', ''Fax'']),
      (''Website'', field_pattern ''Website''
         [''Location'', ''Address'', ''City/ Town'', ''County'', ''Country'', ''Phone'', ''Email'', ''Fax'']),
      (''Phone'', field_pattern ''Phone''
         [''Location'', ''Address'', ''City/ Town'', ''County'', ''Country'', ''Website'', ''Email'', ''Fax'']),
      (''Email'', field_pattern ''Email''
         [''Location'', ''Address'', ''City/ Town'', ''County'', ''Country'', ''Website'', ''Phone'', ''Fax'']),
      (''Fax'', field_pattern ''Fax''
         [''Location'', ''Address'', ''City/ Town'', ''County'', ''Country'', ''Website'', ''Phone'', ''Email''])]"

definition phone_pattern :: re where
  \<comment> \<open>\<open>(?:\b\d{3}[-.]?\d{3}[-.]?\d{3,4}\b|\b0\d{2,3}[- ]?\d{3,4}[- ]?\d{3,4}\b)\<close>\<close>
  "phone_pattern =
     Alt (seqs [Bnd, Rep 3 (Some 3) True is_digit,
                Rep 0 (Some 1) True (\<lambda>c. c = CHR ''-'' \<or> c = CHR ''.''),
                Rep 3 (Some 3) True is_digit,
                Rep 0 (Some 1) True (\<lambda>c. c = CHR ''-'' \<or> c = CHR ''.''),
                Rep 3 (Some 4) True is_digit, Bnd])
         (seqs [Bnd, Lit CHR ''0'', Rep 2 (Some 3) True is_digit,
                Rep 0 (Some 1) True (\<lambda>c. c = CHR ''-'' \<or> c = CHR '' ''),
                Rep 3 (Some 4) True is_digit,
                Rep 0 (Some 1) True (\<lambda>c. c = CHR ''-'' \<or> c = CHR '' ''),
                Rep 3 (Some 4) True is_digit, Bnd])"

definition non_digit :: re where
  \<comment> \<open>\<open>[^\d]\<close>\<close>
  "non_digit = Cls (\<lambda>c. \<not> is_digit c)"

definition takes_254_branch :: "string \<Rightarrow> bool" where
  \<comment> \<open>the condition of the \<open>elif\<close>: \<open>len(cleaned) == 12 and cleaned.startswith('254')\<close>\<close>
  "takes_254_branch cleaned = (length cleaned = 12 \<and> starts_with cleaned ''254'')"

definition strip_non_digits :: "string \<Rightarrow> string" where
  \<comment> \<open>\<open>re.sub(r'[^\d]', '', phone)\<close>\<close>
  "strip_non_digits phone = re_sub False non_digit (\<lambda>g. []) phone"

definition clean_phone :: "string \<Rightarrow> error + string" where
  "clean_phone phone =
     (let cleaned = strip_non_digits phone
      in case (if length cleaned = 9
               then (case index0 cleaned of Inl e \<Rightarrow> Inl e | Inr c \<Rightarrow> Inr (c \<in> set ''23456789''))
               else Inr False) of
           Inl e \<Rightarrow> Inl e
         | Inr True \<Rightarrow> Inr (CHR ''0'' # cleaned)
         | Inr False \<Rightarrow>
             if takes_254_branch cleaned then Inr (CHR ''0'' # drop 3 cleaned) else Inr cleaned)"

fun clean_phones :: "string list \<Rightarrow> error + string list" where
  \<comment> \<open>the loop over \<open>phones\<close>, building \<open>cleaned_phones\<close>\<close>
  "clean_phones [] = Inr []"
| "clean_phones (phone # phones) =
     (case clean_phone phone of
        Inl e \<Rightarrow> Inl e
      | Inr cleaned \<Rightarrow>
          (case clean_phones phones of Inl e \<Rightarrow> Inl e | Inr cs \<Rightarrow> Inr (cleaned # cs)))"

definition email_pattern :: re where
  \<comment> \<open>\<open>\b[A-Za-z0-9._%+-]+@[A-Za-z0-9.-]+\.[A-Z|a-z]{2,}\b\<close>\<close>
  "email_pattern =
     seqs [Bnd,
           Rep 1 None True (\<lambda>c. is_upper c \<or> is_lower c \<or> is_digit c \<or> c \<in> set ''._%+-''),
           Lit CHR ''@'',
           Rep 1 None True (\<lambda>c. is_upper c \<or> is_lower c \<or> is_digit c \<or> c \<in> set ''.-''),
           Lit CHR ''.'',
           Rep 2 None True (\<lambda>c. is_upper c \<or> c = CHR ''|'' \<or> is_lower c),
           Bnd]"

definition website_pattern :: re where
  \<comment> \<open>\<open>(?:https?://|www\.)[^\s,]+\<close>\<close>
  "website_pattern =
     seqs [Alt (seqs [str ''http'', Rep 0 (Some 1) True (\<lambda>c. c = CHR ''s''), str ''://''])
               (str ''www.''),
           Rep 1 None True (\<lambda>c. \<not> is_space c \<and> c \<noteq> CHR '','')]"

definition joined_or_NA :: "string list \<Rightarrow> string" where
  \<comment> \<open>\<open>', '.join(set(xs)) if xs else 'NA'\<close>\<close>
  "joined_or_NA xs = (if xs \<noteq> [] then join '', '' (set_iter xs) else ''NA'')"

definition extract_field :: "string \<Rightarrow> string \<times> re \<Rightarrow> school_record \<Rightarrow> error + school_record" where
  \<comment> \<open>one round of the loop over \<open>fields.items()\<close>\<close>
  "extract_field text_block fp data =
     (case fp of (field, pattern) \<Rightarrow>
        (case re_search True pattern text_block of
           None \<Rightarrow> Inr data
         | Some m \<Rightarrow>
             (case strip_opt (match_group m 1) of
                Inl e \<Rightarrow> Inl e
              | Inr val \<Rightarrow>
                  if val = [] then Inr data
                  else if field = ''Phone'' then
                    (case clean_phones (re_findall False phone_pattern val) of
                       Inl e \<Rightarrow> Inl e
                     | Inr cleaned_phones \<Rightarrow> Inr (dict_set field (joined_or_NA cleaned_phones) data))
                  else if field = ''Email'' then
                    Inr (dict_set field (joined_or_NA (re_findall True email_pattern val)) data)
                  else if field = ''Website'' then
                    Inr (dict_set field (joined_or_NA (re_findall False website_pattern val)) data)
                  else Inr (dict_set field val data))))"

fun extract_fields :: "string \<Rightarrow> (string \<times> re) list \<Rightarrow> school_record \<Rightarrow> error + school_record" where
  "extract_fields text_block [] data = Inr data"
| "extract_fields text_block (fp # fps) data =
     (case extract_field text_block fp data of
        Inl e \<Rightarrow> Inl e
      | Inr data' \<Rightarrow> extract_fields text_block fps data')"

definition extract_name :: "string \<Rightarrow> school_record \<Rightarrow> error + school_record" where
  "extract_name text_block data =
     (case re_match False name_pattern text_block of
        None \<Rightarrow> Inr data
      | Some m \<Rightarrow>
          (case strip_opt (match_group m 1) of
             Inl e \<Rightarrow> Inl e
           | Inr name \<Rightarrow> Inr (dict_set ''School Name'' name data)))"

definition normalize_block :: "string \<Rightarrow> string" where
  \<comment> \<open>\<open>re.sub(r'\s+', ' ', text_block).strip()\<close>\<close>
  "normalize_block text_block = strip (normalize_whitespace text_block)"

definition extract_school_data :: "string \<Rightarrow> error + school_record" where
  "extract_school_data text_block =
     (let text_block = normalize_block text_block
      in case extract_name text_block initial_data of
           Inl e \<Rightarrow> Inl e
         | Inr data \<Rightarrow> extract_fields text_block fields data)"

section \<open>Segmentation: \<open>process_pdf\<close>\<close>

definition dehyphen_pattern :: re where
  \<comment> \<open>\<open>(\w)-\s*\n\s*(\w)\<close>\<close>
  "dehyphen_pattern =
     seqs [Grp 1 (Cls is_word), Lit CHR ''-'', Rep 0 None True is_space, Lit newline,
           Rep 0 None True is_space, Grp 2 (Cls is_word)]"

definition dehyphenate :: "string \<Rightarrow> string" where
  \<comment> \<open>\<open>re.sub(r'(\w)-\s*\n\s*(\w)', r'\1\2', full_text)\<close>\<close>
  "dehyphenate full_text =
     re_sub False dehyphen_pattern (\<lambda>g. group_text g 1 @ group_text g 2) full_text"

definition name_char :: "char \<Rightarrow> bool" where
  \<comment> \<open>\<open>[a-zA-Z\s,&\.\'-]\<close>\<close>
  "name_char c =
     (is_lower c \<or> is_upper c \<or> is_space c \<or> c = CHR '','' \<or> c = CHR ''&'' \<or> c = CHR ''.'' \<or>
      c = CHR 0x27 \<or> c = CHR ''-'')"

definition anchor :: re where
  \<comment> \<open>\<open>\b[A-Z][a-zA-Z\s,&\.\'-]+(?:School|Academy|Sch\.|High|Centre|Foundation)\b\<close>\<close>
  "anchor =
     seqs [Bnd, Cls is_upper, Rep 1 None True name_char,
           alts [str ''School'', str ''Academy'', str ''Sch.'', str ''High'', str ''Centre'',
                 str ''Foundation''],
           Bnd]"

fun pair_blocks :: "string list \<Rightarrow> string list" where
  \<comment> \<open>the loop \<open>for i in range(0, len(school_blocks), 2)\<close>\<close>
  "pair_blocks [] = []"
| "pair_blocks [b] = [b]"
| "pair_blocks (b1 # b2 # bs) = (b1 @ b2) # pair_blocks bs"

fun extract_all :: "string list \<Rightarrow> error + school_record list" where
  "extract_all [] = Inr []"
| "extract_all (b # bs) =
     (case extract_school_data b of
        Inl e \<Rightarrow> Inl e
      | Inr r \<Rightarrow> (case extract_all bs of Inl e \<Rightarrow> Inl e | Inr rs \<Rightarrow> Inr (r # rs)))"

definition school_blocks :: "string \<Rightarrow> string list" where
  \<comment> \<open>the pre-processing of \<open>full_text\<close> and \<open>re.split(r'(?=...)', full_text)[1:]\<close>\<close>
  "school_blocks full_text =
     drop 1 (re_split False (Look anchor) (normalize_whitespace (dehyphenate full_text)))"

definition process_pdf :: "string list \<Rightarrow> school_record list" where
  \<comment> \<open>\<open>process_pdf\<close> from the extracted text on: the argument holds, for each page of the
      downloaded document, \<open>page.extract_text() or ""\<close>. An exception gives the empty
      list. The download and the PDF reader are outside the model.\<close>
  "process_pdf pages =
     (let full_text = join [newline] pages
      in case extract_all (pair_blocks (school_blocks full_text)) of
           Inl e \<Rightarrow> []
         | Inr schools \<Rightarrow> schools)"

section \<open>Reference functions for the proofs\<close>

text \<open>Collapsing every run of whitespace into one space, by direct recursion.\<close>

function collapse :: "string \<Rightarrow> string" where
  "collapse [] = []"
| "collapse (x # xs) =
     (if is_space x then CHR '' '' # collapse (dropWhile is_space xs) else x # collapse xs)"
  by pat_completeness auto
termination
  by (relation "measure length") (auto simp: le_imp_less_Suc length_dropWhile_le)

text \<open>A text that is already normalised: its only whitespace is single blanks.\<close>

fun tidy :: "string \<Rightarrow> bool" where
  "tidy [] = True"
| "tidy [x] = (is_space x \<longrightarrow> x = CHR '' '')"
| "tidy (x # y # r) = ((is_space x \<longrightarrow> x = CHR '' '' \<and> \<not> is_space y) \<and> tidy (y # r))"

text \<open>
  The texts a pattern can consume, whatever the context: the assertions \<open>\b\<close>, \<open>^\<close>, \<open>$\<close>
  and \<open>(?=...)\<close> consume nothing. Every match of the matcher lies in this set.
\<close>

fun lang :: "bool \<Rightarrow> re \<Rightarrow> string set" where
  "lang ic Eps = {[]}"
| "lang ic (Lit c) = {[x] | x. lit_eq ic c x}"
| "lang ic (Cls P) = {[x] | x. P x}"
| "lang ic Bnd = {[]}"
| "lang ic Bol = {[]}"
| "lang ic Eol = {[]}"
| "lang ic (Seq r1 r2) = {u @ v | u v. u \<in> lang ic r1 \<and> v \<in> lang ic r2}"
| "lang ic (Alt r1 r2) = lang ic r1 \<union> lang ic r2"
| "lang ic (Rep lo hi greedy P) =
     {w. (\<forall>c\<in>set w. P c) \<and> lo \<le> length w \<and> (case hi of None \<Rightarrow> True | Some h \<Rightarrow> length w \<le> h)}"
| "lang ic (Look r) = {[]}"
| "lang ic (Grp n r) = lang ic r"

text \<open>
  A label occurring in a text as plain characters (compared without regard to case when
  the flag is set): at the start of the text, and anywhere in it.
\<close>

fun label_at :: "bool \<Rightarrow> string \<Rightarrow> string \<Rightarrow> bool" where
  "label_at ic t [] = True"
| "label_at ic [] (c # cs) = False"
| "label_at ic (x # xs) (c # cs) = (lit_eq ic c x \<and> label_at ic xs cs)"

fun label_in :: "bool \<Rightarrow> string \<Rightarrow> string \<Rightarrow> bool" where
  "label_in ic [] w = label_at ic [] w"
| "label_in ic (x # xs) w = (label_at ic (x # xs) w \<or> label_in ic xs w)"

text \<open>
  The text captured for a field, by direct recursion: \<open>up_to_boundary\<close> is the text up to
  the first place where one of the labels \<open>ls\<close> stands with its colon (or to the end),
  \<open>after_label\<close> the text after the first occurrence of a label, and \<open>captured\<close> the
  value of a labelled field before trimming. \<open>cands\<close> lists the places where a lazy
  capture can end, with the text consumed up to each.
\<close>

definition at_boundary :: "bool \<Rightarrow> string list \<Rightarrow> string \<Rightarrow> bool" where
  "at_boundary ic ls a = (\<exists>l\<in>set ls. label_at ic a (l @ '':''))"

fun up_to_boundary :: "bool \<Rightarrow> string list \<Rightarrow> string \<Rightarrow> string" where
  "up_to_boundary ic ls [] = []"
| "up_to_boundary ic ls (x # xs) =
     (if at_boundary ic ls (x # xs) then [] else x # up_to_boundary ic ls xs)"

fun after_label :: "string \<Rightarrow> string \<Rightarrow> string option" where
  "after_label w [] = (if label_at True [] w then Some [] else None)"
| "after_label w (x # xs) =
     (if label_at True (x # xs) w then Some (drop (length w) (x # xs)) else after_label w xs)"

definition captured :: "string \<Rightarrow> string list \<Rightarrow> string \<Rightarrow> string option" where
  "captured l ls t =
     map_option (\<lambda>rest. up_to_boundary True ls (dropWhile is_space rest)) (after_label (l @ '':'') t)"

definition label_names :: "string list" where
  "label_names =
     [''Location'', ''Address'', ''City/ Town'', ''County'', ''Country'', ''Website'', ''Phone'',
      ''Email'', ''Fax'']"

definition other_labels :: "string \<Rightarrow> string list" where
  "other_labels l = filter (\<lambda>x. x \<noteq> l) label_names"

fun cands :: "(char \<Rightarrow> bool) \<Rightarrow> string \<Rightarrow> char option \<Rightarrow> string \<Rightarrow> (char option \<times> string \<times> string) list" where
  "cands P pre p [] = [(p, [], pre)]"
| "cands P pre p (x # xs) = (p, x # xs, pre) # (if P x then cands P (pre @ [x]) (Some x) xs else [])"



section \<open>Facts about the matcher\<close>

declare finditer.simps [simp del]

lemma runs_nonempty: "runs P hi p a \<noteq> []"
  by (cases a) auto

lemma snd_last_runs_None: "snd (last (runs P None p a)) = dropWhile P a"
  by (induction a arbitrary: p) (auto simp: runs_nonempty)

lemma finditer_None_Cons:
  "first_match ic r adv p (x # xs) = None \<Longrightarrow>
   substitute repl (finditer ic r adv p (x # xs)) = x # substitute repl (finditer ic r False (Some x) xs)"
  by (subst finditer.simps) (simp add: substitute_def split: prod.splits list.splits)

lemma finditer_None_Nil:
  "first_match ic r adv p [] = None \<Longrightarrow> finditer ic r adv p [] = ([], [])"
  by (subst finditer.simps) simp

lemma finditer_Some:
  "first_match ic r adv p a = Some (p', a', g) \<Longrightarrow> length a' < length a \<Longrightarrow>
   substitute repl (finditer ic r adv p a) = repl g @ substitute repl (finditer ic r False p' a')"
  by (subst finditer.simps) (auto simp: substitute_def split: prod.splits)

lemma first_match_whitespace_run:
  "first_match False whitespace_run adv p a =
     (case a of [] \<Rightarrow> None
      | x # xs \<Rightarrow> if is_space x then Some (fst (last (runs is_space None (Some x) xs)), dropWhile is_space xs, [])
                  else None)"
proof (cases a)
  case Nil
  then show ?thesis by (simp add: first_match_def whitespace_run_def)
next
  case (Cons x xs)
  show ?thesis
  proof (cases "is_space x")
    case False
    with Cons show ?thesis by (simp add: first_match_def whitespace_run_def)
  next
    case True
    let ?rs = "runs is_space None (Some x) xs"
    have "?rs = butlast ?rs @ [last ?rs]" by (simp add: runs_nonempty)
    then have rv: "rev ?rs = last ?rs # rev (butlast ?rs)"
      by (metis rev.simps(2) rev_rev_ident rev_singleton_conv rev_append append_Cons append_Nil)
    have "length (dropWhile is_space xs) \<le> length xs" by (rule length_dropWhile_le)
    then have lt: "length (snd (last ?rs)) < length (x # xs)"
      by (simp add: snd_last_runs_None)
    have "ms False whitespace_run (p, x # xs, []) = map (\<lambda>(p', a'). (p', a', [])) (rev ?rs)"
      using True by (simp add: whitespace_run_def rev_map)
    also have "\<dots> = (fst (last ?rs), snd (last ?rs), []) # map (\<lambda>(p', a'). (p', a', [])) (rev (butlast ?rs))"
      by (simp add: rv case_prod_beta)
    finally have "first_match False whitespace_run adv p (x # xs) = Some (fst (last ?rs), snd (last ?rs), [])"
      using lt by (simp add: first_match_def)
    then show ?thesis using Cons True by (simp add: snd_last_runs_None)
  qed
qed

lemma runs_nth:
  "k < length (runs P hi p a) \<Longrightarrow>
   snd (runs P hi p a ! k) = drop k a \<and> k \<le> length a \<and> (\<forall>c\<in>set (take k a). P c) \<and>
   (case hi of None \<Rightarrow> True | Some h \<Rightarrow> k \<le> h)"
proof (induction a arbitrary: k p hi)
  case Nil
  then show ?case by (simp split: option.splits)
next
  case (Cons x xs)
  show ?case
  proof (cases k)
    case 0
    then show ?thesis by (simp split: option.splits)
  next
    case (Suc j)
    with Cons.prems have ok: "P x" "hi \<noteq> Some 0"
      and j: "j < length (runs P (map_option (\<lambda>k. k - 1) hi) (Some x) xs)"
      by (auto split: if_splits)
    from Cons.IH [OF j] ok Suc show ?thesis
      by (cases hi) auto
  qed
qed

lemma in_runs:
  assumes "(p', a') \<in> set (drop lo (runs P hi p a))"
  shows "\<exists>w. a = w @ a' \<and> (\<forall>c\<in>set w. P c) \<and> lo \<le> length w \<and>
             (case hi of None \<Rightarrow> True | Some h \<Rightarrow> length w \<le> h)"
proof -
  from assms obtain i where i: "i < length (drop lo (runs P hi p a))"
    and at: "drop lo (runs P hi p a) ! i = (p', a')"
    by (auto simp: in_set_conv_nth)
  then have k: "lo + i < length (runs P hi p a)" and "runs P hi p a ! (lo + i) = (p', a')"
    by auto
  with runs_nth [OF k] have "a' = drop (lo + i) a" "lo + i \<le> length a"
    "\<forall>c\<in>set (take (lo + i) a). P c" "case hi of None \<Rightarrow> True | Some h \<Rightarrow> lo + i \<le> h"
    by auto
  then show ?thesis
    by (intro exI [of _ "take (lo + i) a"]) (auto split: option.splits)
qed

lemma ms_sound:
  "(p', a', g') \<in> set (ms ic r (p, a, g)) \<Longrightarrow> \<exists>w. a = w @ a' \<and> w \<in> lang ic r"
proof (induction r arbitrary: p a g p' a' g')
  case (Seq r1 r2)
  from Seq.prems obtain m where m: "m \<in> set (ms ic r1 (p, a, g))" and x: "(p', a', g') \<in> set (ms ic r2 m)"
    by auto
  obtain p1 a1 g1 where m_eq: "m = (p1, a1, g1)" by (cases m)
  from Seq.IH(1) [of p1 a1 g1 p a g] m obtain u where u: "a = u @ a1" "u \<in> lang ic r1"
    by (auto simp: m_eq)
  from Seq.IH(2) [of p' a' g' p1 a1 g1] x obtain v where v: "a1 = v @ a'" "v \<in> lang ic r2"
    by (auto simp: m_eq)
  from u v have "a = (u @ v) @ a'" "u @ v \<in> lang ic (Seq r1 r2)" by auto
  then show ?case by blast
next
  case (Alt r1 r2)
  from Alt.prems have "(p', a', g') \<in> set (ms ic r1 (p, a, g)) \<or> (p', a', g') \<in> set (ms ic r2 (p, a, g))"
    by simp
  with Alt.IH show ?case by fastforce
next
  case (Rep lo hi greedy P)
  then have "(p', a') \<in> set (drop lo (runs P hi p a))"
    by (auto simp: Let_def split: if_splits)
  from in_runs [OF this] show ?case by auto
next
  case (Grp k r)
  from Grp.prems obtain g1 where "(p', a', g1) \<in> set (ms ic r (p, a, g))" by auto
  with Grp.IH show ?case by simp
next
  case (Lit c)
  then show ?case by (auto split: list.splits if_splits)
next
  case (Cls P)
  then show ?case by (auto split: list.splits if_splits)
qed (auto split: if_splits)

lemma first_match_in_ms:
  "first_match ic r adv p a = Some st \<Longrightarrow> st \<in> set (ms ic r (p, a, []))"
  unfolding first_match_def by (metis find_Some_iff nth_mem)

lemma first_match_lang:
  assumes "first_match ic r adv p a = Some (p', a', g)"
  shows "take (length a - length a') a \<in> lang ic r"
proof -
  from assms have "(p', a', g) \<in> set (ms ic r (p, a, []))" by (rule first_match_in_ms)
  from ms_sound [OF this] obtain w where "a = w @ a'" "w \<in> lang ic r" by blast
  then show ?thesis by simp
qed

lemma finditer_Nil:
  "first_match ic r adv p [] = None \<Longrightarrow> finditer ic r adv p [] = ([], [])"
  by (subst finditer.simps) simp

lemma finditer_Cons:
  "first_match ic r adv p (x # xs) = None \<Longrightarrow>
   finditer ic r adv p (x # xs) =
     (case finditer ic r False (Some x) xs of
        ([], rest) \<Rightarrow> ([], x # rest)
      | ((gap, m, g) # fs, rest) \<Rightarrow> ((x # gap, m, g) # fs, rest))"
  by (subst finditer.simps) simp

lemma finditer_match:
  "first_match ic r adv p a = Some (p', a', g) \<Longrightarrow>
   finditer ic r adv p a =
     (let m = take (length a - length a') a;
          (fs, rest) = (if m = [] then finditer ic r True p a else finditer ic r False p' a')
      in (([], m, g) # fs, rest))"
  by (subst finditer.simps) simp

lemma finditer_found_lang:
  "(gap, m, g) \<in> set (fst (finditer ic r adv p a)) \<Longrightarrow> m \<in> lang ic r"
proof (induction ic r adv p a arbitrary: gap m g rule: finditer.induct)
  case (1 ic r adv p a)
  show ?case
  proof (cases "first_match ic r adv p a")
    case None
    show ?thesis
    proof (cases a)
      case Nil
      with None "1.prems" show ?thesis by (simp add: finditer_Nil)
    next
      case (Cons x xs)
      with None "1.prems" obtain gap' where "(gap', m, g) \<in> set (fst (finditer ic r False (Some x) xs))"
        by (auto simp: finditer_Cons split: prod.splits list.splits)
      with "1.IH"(1) [OF None Cons] show ?thesis by blast
    qed
  next
    case (Some st)
    obtain p' a' g0 where st: "st = (p', a', g0)" by (cases st)
    let ?m = "take (length a - length a') a"
    from Some st have fm: "first_match ic r adv p a = Some (p', a', g0)" by simp
    show ?thesis
    proof (cases "?m = []")
      case True
      with fm "1.prems" have "(gap, m, g) = ([], ?m, g0) \<or> (gap, m, g) \<in> set (fst (finditer ic r True p a))"
        by (auto simp: finditer_match [OF fm] split: prod.splits)
      with first_match_lang [OF fm] "1.IH"(2) [OF Some st [symmetric] refl refl True]
      show ?thesis by blast
    next
      case False
      with fm "1.prems" have "(gap, m, g) = ([], ?m, g0) \<or> (gap, m, g) \<in> set (fst (finditer ic r False p' a'))"
        by (auto simp: finditer_match [OF fm] split: prod.splits)
      with first_match_lang [OF fm] "1.IH"(3) [OF Some st [symmetric] refl refl False]
      show ?thesis by blast
    qed
  qed
qed

lemma re_findall_lang: "m \<in> set (re_findall ic r s) \<Longrightarrow> m \<in> lang ic r"
  by (auto simp: re_findall_def dest: finditer_found_lang)

section \<open>Whitespace normalisation\<close>

lemma substitute_whitespace_run:
  "substitute (\<lambda>g. '' '') (finditer False whitespace_run adv p a) = collapse a"
proof (induction a arbitrary: adv p rule: collapse.induct)
  case 1
  show ?case by (simp add: finditer_None_Nil first_match_whitespace_run substitute_def)
next
  case (2 x xs)
  show ?case
  proof (cases "is_space x")
    case True
    have "length (dropWhile is_space xs) < length (x # xs)"
      by (simp add: le_imp_less_Suc length_dropWhile_le)
    then show ?thesis using True 2
      by (subst finditer_Some [where a' = "dropWhile is_space xs" and g = "[]"
             and p' = "fst (last (runs is_space None (Some x) xs))"])
         (simp_all add: first_match_whitespace_run)
  next
    case False
    then show ?thesis using 2
      by (simp add: finditer_None_Cons first_match_whitespace_run)
  qed
qed

lemma normalize_whitespace_collapse: "normalize_whitespace s = collapse s"
  by (simp add: normalize_whitespace_def re_sub_def substitute_whitespace_run)

lemma is_space_blank: "is_space CHR '' ''"
  by (simp add: is_space_def code_def)

lemma collapse_no_leading_space:
  "a = [] \<or> \<not> is_space (hd a) \<Longrightarrow> dropWhile is_space (collapse a) = collapse a"
  by (cases a) auto

lemma collapse_idem: "collapse (collapse a) = collapse a"
proof (induction a rule: collapse.induct)
  case 1
  show ?case by simp
next
  case (2 x xs)
  have "dropWhile is_space xs = [] \<or> \<not> is_space (hd (dropWhile is_space xs))"
    by (metis hd_dropWhile)
  then have "dropWhile is_space (collapse (dropWhile is_space xs)) = collapse (dropWhile is_space xs)"
    by (rule collapse_no_leading_space)
  then show ?case using 2 by (simp add: is_space_blank)
qed

lemma tidy_Cons: "tidy (x # xs) \<Longrightarrow> tidy xs"
  by (cases xs) auto

lemma tidy_drop: "tidy t \<Longrightarrow> tidy (drop k t)"
proof (induction k arbitrary: t)
  case 0
  then show ?case by simp
next
  case (Suc k)
  then show ?case by (cases t) (auto dest: tidy_Cons)
qed

lemma tidy_take: "tidy t \<Longrightarrow> tidy (take k t)"
proof (induction t arbitrary: k rule: tidy.induct)
  case 1
  show ?case by simp
next
  case (2 x)
  then show ?case by (cases k) auto
next
  case (3 x y r)
  show ?case
  proof (cases k)
    case 0
    then show ?thesis by simp
  next
    case (Suc j)
    show ?thesis
    proof (cases j)
      case 0
      with Suc "3.prems" show ?thesis by simp
    next
      case (Suc n)
      from "3.prems" have "tidy (y # r)" by simp
      from "3.IH" [OF this, of "Suc n"] "3.prems" Suc \<open>k = Suc j\<close> show ?thesis by simp
    qed
  qed
qed

lemma tidy_collapse: "tidy (collapse s)"
proof (induction s rule: collapse.induct)
  case 1
  show ?case by simp
next
  case (2 x xs)
  show ?case
  proof (cases "is_space x")
    case True
    have hd: "dropWhile is_space xs = [] \<or> \<not> is_space (hd (dropWhile is_space xs))"
      by (metis hd_dropWhile)
    from True 2 have t: "tidy (collapse (dropWhile is_space xs))" by simp
    show ?thesis
    proof (cases "dropWhile is_space xs")
      case Nil
      with True show ?thesis by (simp del: dropWhile_eq_Nil_conv)
    next
      case (Cons y ys)
      with hd have "\<not> is_space y" by simp
      with True t Cons show ?thesis by simp
    qed
  next
    case False
    with 2 have "tidy (collapse xs)" by simp
    with False show ?thesis by (cases "collapse xs") auto
  qed
qed

lemma collapse_tidy: "tidy t \<Longrightarrow> collapse t = t"
proof (induction t rule: tidy.induct)
  case 1
  show ?case by simp
next
  case (2 x)
  then show ?case by simp
next
  case (3 x y r)
  then show ?case by auto
qed

lemma rev_dropWhile_rev:
  "rev (dropWhile P (rev d)) = take (length d - length (takeWhile P (rev d))) d"
proof -
  have "rev (dropWhile P (rev d)) = rev (drop (length (takeWhile P (rev d))) (rev d))"
    by (simp add: dropWhile_eq_drop [symmetric])
  then show ?thesis by (simp add: rev_drop)
qed

lemma strip_take_drop: "\<exists>i j. strip t = take i (drop j t)"
proof -
  have "strip t = rev (dropWhile is_space (rev (drop (length (takeWhile is_space t)) t)))"
    unfolding strip_def by (simp add: dropWhile_eq_drop [symmetric])
  then show ?thesis unfolding rev_dropWhile_rev by blast
qed

lemma tidy_strip: "tidy t \<Longrightarrow> tidy (strip t)"
proof -
  assume t: "tidy t"
  obtain i j where "strip t = take i (drop j t)" using strip_take_drop by blast
  with t show ?thesis by (simp add: tidy_take tidy_drop)
qed

lemma strip_idem: "strip (strip t) = strip t"
proof -
  define d where "d = dropWhile is_space t"
  define e where "e = rev (dropWhile is_space (rev d))"
  have st: "strip t = e" by (simp add: strip_def d_def e_def)
  have d: "d = [] \<or> \<not> is_space (hd d)" unfolding d_def by (metis hd_dropWhile)
  obtain i where e: "e = take i d" unfolding e_def rev_dropWhile_rev by blast
  have "dropWhile is_space e = e"
  proof (cases e)
    case Nil
    then show ?thesis by simp
  next
    case (Cons y ys)
    with e have "d \<noteq> []" "hd d = y" by (cases d; cases i; simp)+
    with d have "\<not> is_space y" by simp
    with Cons show ?thesis by simp
  qed
  moreover have "rev (dropWhile is_space (rev e)) = e"
    unfolding e_def by (simp add: dropWhile_idem)
  ultimately have "strip e = e" by (simp add: strip_def)
  with st show ?thesis by simp
qed

lemma normalize_block_idem: "normalize_block (normalize_block s) = normalize_block s"
proof -
  have "tidy (strip (collapse s))" by (intro tidy_strip tidy_collapse)
  then have "collapse (strip (collapse s)) = strip (collapse s)" by (rule collapse_tidy)
  then show ?thesis
    by (simp add: normalize_block_def normalize_whitespace_collapse strip_idem)
qed

text \<open>
  C9. Collapsing every run of whitespace to a single space is idempotent: for every text,
  applying \<open>re.sub(r'\s+', ' ', text)\<close> twice gives the same text as applying it once.
  The same holds for the step with which \<open>extract_school_data\<close> starts, which trims the
  text after collapsing it.
\<close>

theorem normalize_whitespace_idempotent:
  "normalize_whitespace (normalize_whitespace s) = normalize_whitespace s \<and>
   normalize_block (normalize_block s) = normalize_block s"
  by (simp add: normalize_whitespace_collapse collapse_idem normalize_block_idem)

section \<open>Phone cleaning\<close>

lemma substitute_non_digit:
  "substitute (\<lambda>g. []) (finditer False non_digit adv p a) = filter is_digit a"
proof (induction a arbitrary: adv p)
  case Nil
  have "first_match False non_digit adv p [] = None"
    by (simp add: first_match_def non_digit_def)
  then show ?case by (simp add: finditer_Nil substitute_def)
next
  case (Cons x xs)
  show ?case
  proof (cases "is_digit x")
    case True
    then have "first_match False non_digit adv p (x # xs) = None"
      by (simp add: first_match_def non_digit_def)
    with Cons True show ?thesis by (simp add: finditer_None_Cons)
  next
    case False
    then have "first_match False non_digit adv p (x # xs) = Some (Some x, xs, [])"
      by (simp add: first_match_def non_digit_def)
    from finditer_Some [OF this, of "\<lambda>g. []"] Cons False show ?thesis by simp
  qed
qed

lemma strip_non_digits_filter: "strip_non_digits s = filter is_digit s"
  by (simp add: strip_non_digits_def re_sub_def substitute_non_digit)

lemma lang_SeqE:
  assumes "w \<in> lang ic (Seq r1 r2)"
  obtains u v where "w = u @ v" "u \<in> lang ic r1" "v \<in> lang ic r2"
  using assms by auto

lemma lang_digits:
  "w \<in> lang ic (Rep lo (Some hi) gr is_digit) \<Longrightarrow>
   filter is_digit w = w \<and> lo \<le> length w \<and> length w \<le> hi"
  by (simp add: filter_id_conv)

lemma lang_separator:
  "w \<in> lang ic (Rep lo hi gr P) \<Longrightarrow> \<forall>c. P c \<longrightarrow> \<not> is_digit c \<Longrightarrow> filter is_digit w = []"
  by (auto simp: filter_empty_conv)

lemma is_digit_chars:
  "\<not> is_digit CHR ''-''" "\<not> is_digit CHR ''.''" "\<not> is_digit CHR '' ''" "is_digit CHR ''0''"
  by (simp_all add: is_digit_def code_def)

lemma phone_lang_digits:
  assumes "m \<in> lang False phone_pattern"
  shows "length (filter is_digit m) \<le> 12 \<and> \<not> takes_254_branch (filter is_digit m)"
proof -
  let ?dot = "\<lambda>c. c = CHR ''-'' \<or> c = CHR ''.''"
  let ?blank = "\<lambda>c. c = CHR ''-'' \<or> c = CHR '' ''"
  let ?A = "Seq Bnd (Seq (Rep 3 (Some 3) True is_digit) (Seq (Rep 0 (Some 1) True ?dot)
             (Seq (Rep 3 (Some 3) True is_digit) (Seq (Rep 0 (Some 1) True ?dot)
             (Seq (Rep 3 (Some 4) True is_digit) Bnd)))))"
  let ?B = "Seq Bnd (Seq (Lit CHR ''0'') (Seq (Rep 2 (Some 3) True is_digit)
             (Seq (Rep 0 (Some 1) True ?blank) (Seq (Rep 3 (Some 4) True is_digit)
             (Seq (Rep 0 (Some 1) True ?blank) (Seq (Rep 3 (Some 4) True is_digit) Bnd))))))"
  have pp: "phone_pattern = Alt ?A ?B" by (simp add: phone_pattern_def)
  from assms have "m \<in> lang False (Alt ?A ?B)" unfolding pp .
  then have "m \<in> lang False ?A \<or> m \<in> lang False ?B" unfolding lang.simps(8) Un_iff .
  then consider (local) "m \<in> lang False ?A" | (trunk) "m \<in> lang False ?B" by blast
  then show ?thesis
  proof cases
    case local
    then obtain b0 d1 s1 d2 s2 d3 b1 where m: "m = b0 @ d1 @ s1 @ d2 @ s2 @ d3 @ b1"
      and "b0 \<in> lang False Bnd" "b1 \<in> lang False Bnd"
      and d1: "d1 \<in> lang False (Rep 3 (Some 3) True is_digit)"
      and s1: "s1 \<in> lang False (Rep 0 (Some 1) True ?dot)"
      and d2: "d2 \<in> lang False (Rep 3 (Some 3) True is_digit)"
      and s2: "s2 \<in> lang False (Rep 0 (Some 1) True ?dot)"
      and d3: "d3 \<in> lang False (Rep 3 (Some 4) True is_digit)"
      by (elim lang_SeqE) (hypsubst, blast)
    then have "b0 = []" "b1 = []" by simp_all
    moreover have "filter is_digit s1 = []" "filter is_digit s2 = []"
      using lang_separator [OF s1] lang_separator [OF s2] by (simp_all add: is_digit_chars)
    ultimately have "filter is_digit m = d1 @ d2 @ d3"
      using lang_digits [OF d1] lang_digits [OF d2] lang_digits [OF d3] by (simp add: m)
    moreover have "length d1 = 3" "length d2 = 3" "length d3 \<le> 4"
      using lang_digits [OF d1] lang_digits [OF d2] lang_digits [OF d3] by auto
    ultimately show ?thesis by (simp add: takes_254_branch_def)
  next
    case trunk
    then obtain b0 z d1 s1 d2 s2 d3 b1 where m: "m = b0 @ z @ d1 @ s1 @ d2 @ s2 @ d3 @ b1"
      and "b0 \<in> lang False Bnd" "b1 \<in> lang False Bnd"
      and z: "z \<in> lang False (Lit CHR ''0'')"
      and d1: "d1 \<in> lang False (Rep 2 (Some 3) True is_digit)"
      and s1: "s1 \<in> lang False (Rep 0 (Some 1) True ?blank)"
      and d2: "d2 \<in> lang False (Rep 3 (Some 4) True is_digit)"
      and s2: "s2 \<in> lang False (Rep 0 (Some 1) True ?blank)"
      and d3: "d3 \<in> lang False (Rep 3 (Some 4) True is_digit)"
      by (elim lang_SeqE) (hypsubst, blast)
    then have "b0 = []" "b1 = []" by simp_all
    moreover from z have "z = ''0''" by (simp add: lit_eq_def)
    moreover have "filter is_digit s1 = []" "filter is_digit s2 = []"
      using lang_separator [OF s1] lang_separator [OF s2] by (simp_all add: is_digit_chars)
    ultimately have eq: "filter is_digit m = CHR ''0'' # d1 @ d2 @ d3"
      using lang_digits [OF d1] lang_digits [OF d2] lang_digits [OF d3]
      by (simp add: m is_digit_chars)
    have "length d1 \<le> 3" "length d2 \<le> 4" "length d3 \<le> 4"
      using lang_digits [OF d1] lang_digits [OF d2] lang_digits [OF d3] by auto
    with eq show ?thesis by (simp add: takes_254_branch_def starts_with_def)
  qed
qed

text \<open>
  C4, as amended. Every text that the phone pattern finds strips to at most 12 digits
  (not 11), and a match of 12 digits starts with \<open>0\<close>; so the branch for a 12-digit
  number with the prefix \<open>254\<close> is never taken, whatever the captured value.
\<close>

theorem phone_branch_254_unreachable:
  "\<forall>phone\<in>set (re_findall False phone_pattern val).
     length (strip_non_digits phone) \<le> 12 \<and> \<not> takes_254_branch (strip_non_digits phone)"
  by (auto simp: strip_non_digits_filter dest!: re_findall_lang phone_lang_digits)

text \<open>The theorem at a value in which the pattern finds a 12-digit number.\<close>

theorem phone_branch_254_unreachable_witness:
  "''012345678901'' \<in> set (re_findall False phone_pattern ''012345678901'') \<and>
   length (strip_non_digits ''012345678901'') \<le> 12 \<and>
   \<not> takes_254_branch (strip_non_digits ''012345678901'')"
proof -
  have found: "''012345678901'' \<in> set (re_findall False phone_pattern ''012345678901'')"
    by code_simp
  with phone_branch_254_unreachable [of "''012345678901''"] show ?thesis by blast
qed

text \<open>
  C4 as stated fails: the second alternative of the pattern matches \<open>012345678901\<close>, which
  has 12 digits.
\<close>

theorem phone_twelve_digits_counterexample:
  "re_findall False phone_pattern ''012345678901'' = [''012345678901''] \<and>
   length (strip_non_digits ''012345678901'') = 12"
  by code_simp

text \<open>
  C3. A captured value of nine digits starting with 7 is stored with a leading zero. A
  captured value \<open>254712345678\<close> is not normalised: the phone pattern finds nothing in it, so
  the field is stored as \<open>NA\<close> and the branch written for the prefix \<open>254\<close> is not reached.
\<close>

theorem phone_254_prefix_not_normalized:
  "extract_school_data ''Phone: 712345678'' =
     Inr [(''School Name'', ''''), (''Location'', ''NA''), (''Address'', ''NA''),
          (''City/ Town'', ''NA''), (''County'', ''NA''), (''Country'', ''NA''), (''Website'', ''NA''),
          (''Phone'', ''0712345678''), (''Email'', ''NA''), (''Fax'', ''NA'')] \<and>
   re_findall False phone_pattern ''254712345678'' = [] \<and>
   extract_school_data ''Phone: 254712345678'' =
     Inr [(''School Name'', ''''), (''Location'', ''NA''), (''Address'', ''NA''),
          (''City/ Town'', ''NA''), (''County'', ''NA''), (''Country'', ''NA''), (''Website'', ''NA''),
          (''Phone'', ''NA''), (''Email'', ''NA''), (''Fax'', ''NA'')]"
  by code_simp

section \<open>Field extraction never fails\<close>

lemma in_ms_Seq:
  "x \<in> set (ms ic (Seq r1 r2) st) \<longleftrightarrow> (\<exists>m\<in>set (ms ic r1 st). x \<in> set (ms ic r2 m))"
  by auto

lemma ms_groups_mono:
  "(p', a', g') \<in> set (ms ic r (p, a, g)) \<Longrightarrow> n \<in> fst ` set g \<Longrightarrow> n \<in> fst ` set g'"
proof (induction r arbitrary: p a g p' a' g')
  case (Seq r1 r2)
  from Seq.prems(1) obtain m where m: "m \<in> set (ms ic r1 (p, a, g))" and x: "(p', a', g') \<in> set (ms ic r2 m)"
    by auto
  obtain p1 a1 g1 where m_eq: "m = (p1, a1, g1)" by (cases m)
  from Seq.IH(1) [of p1 a1 g1 p a g] m Seq.prems(2) have "n \<in> fst ` set g1" by (simp add: m_eq)
  with Seq.IH(2) [of p' a' g' p1 a1 g1] x show ?case by (simp add: m_eq)
next
  case (Grp k r)
  from Grp.prems(1) obtain g1 where "(p', a', g1) \<in> set (ms ic r (p, a, g))" and g': "g' = (k, take (length a - length a') a) # g1"
    by auto
  with Grp.IH [of p' a' g1 p a g] Grp.prems(2) show ?case by simp
next
  case (Alt r1 r2)
  from Alt.prems(1) have "(p', a', g') \<in> set (ms ic r1 (p, a, g)) \<or> (p', a', g') \<in> set (ms ic r2 (p, a, g))"
    by simp
  with Alt.IH Alt.prems(2) show ?case by blast
next
  case (Rep lo hi greedy P)
  then show ?case by (auto simp: Let_def split: if_splits)
qed (auto split: list.splits if_splits)

lemma ms_Grp_sets:
  "(p', a', g') \<in> set (ms ic (Grp n r) st) \<Longrightarrow> n \<in> fst ` set g'"
  by (cases st) auto

lemma search_from_Some:
  "search_from ic r p a = Some g \<Longrightarrow> \<exists>p0 a0 p' a'. (p', a', g) \<in> set (ms ic r (p0, a0, []))"
proof (induction a arbitrary: p)
  case Nil
  then show ?case by (simp split: option.splits prod.splits) (blast dest: first_match_in_ms)
next
  case (Cons x xs)
  then show ?case by (simp split: option.splits prod.splits) (blast dest: first_match_in_ms)+
qed

lemma field_pattern_group:
  assumes "(p', a', g') \<in> set (ms ic (field_pattern l ls) st)"
  shows "1 \<in> fst ` set g'"
proof -
  let ?tail = "Seq (Grp 1 (Rep 0 None False any_char)) (boundary ls)"
  have fp: "field_pattern l ls = Seq (str (l @ '':'')) (Seq (Rep 0 None True is_space) ?tail)"
    by (simp add: field_pattern_def)
  from assms obtain m1 m2 m3 where "m3 \<in> set (ms ic (Grp 1 (Rep 0 None False any_char)) m2)"
    and last: "(p', a', g') \<in> set (ms ic (boundary ls) m3)"
    unfolding fp in_ms_Seq by blast
  then have "1 \<in> fst ` set (snd (snd m3))"
    using ms_Grp_sets [of "fst m3" "fst (snd m3)" "snd (snd m3)"] by simp
  with last ms_groups_mono [of p' a' g' ic "boundary ls" "fst m3" "fst (snd m3)" "snd (snd m3)" 1]
  show ?thesis by simp
qed

lemma name_pattern_group:
  assumes "(p', a', g') \<in> set (ms ic name_pattern st)"
  shows "1 \<in> fst ` set g'"
proof -
  from assms obtain m1 m2 where "m2 \<in> set (ms ic (Grp 1 (Rep 0 None False any_char)) m1)"
    and last: "(p', a', g') \<in> set (ms ic (boundary [''Location'', ''Address'', ''City/ Town'', ''County'', ''Country'',
                     ''Website'', ''Phone'', ''Email'', ''Fax'']) m2)"
    unfolding name_pattern_def seqs.simps in_ms_Seq by blast
  then have "1 \<in> fst ` set (snd (snd m2))"
    using ms_Grp_sets [of "fst m2" "fst (snd m2)" "snd (snd m2)"] by simp
  with last ms_groups_mono [of p' a' g' ic _ "fst m2" "fst (snd m2)" "snd (snd m2)" 1]
  show ?thesis by simp
qed

lemma match_group_defined: "n \<in> fst ` set g \<Longrightarrow> \<exists>s. match_group g n = Some s"
  by (cases "map_of g n") (auto simp: match_group_def map_of_eq_None_iff)

lemma fields_patterns: "fp \<in> set fields \<Longrightarrow> \<exists>l ls. fp = (l, field_pattern l ls)"
  by (auto simp: fields_def)

lemma fields_search_group:
  assumes "fp \<in> set fields" and "re_search True (snd fp) t = Some m"
  shows "\<exists>s. match_group m 1 = Some s"
proof -
  from assms(1) obtain l ls where fp: "fp = (l, field_pattern l ls)"
    by (blast dest: fields_patterns)
  from assms(2) obtain p0 a0 p' a' where "(p', a', m) \<in> set (ms True (field_pattern l ls) (p0, a0, []))"
    unfolding re_search_def fp by (auto dest: search_from_Some)
  then have "1 \<in> fst ` set m" by (rule field_pattern_group)
  then show ?thesis by (rule match_group_defined)
qed

lemma name_match_group:
  assumes "re_match False name_pattern t = Some m"
  shows "\<exists>s. match_group m 1 = Some s"
proof -
  from assms obtain p' a' where "first_match False name_pattern False None t = Some (p', a', m)"
    by (auto simp: re_match_def split: option.splits)
  then have "(p', a', m) \<in> set (ms False name_pattern (None, t, []))"
    by (rule first_match_in_ms)
  then have "1 \<in> fst ` set m" by (rule name_pattern_group)
  then show ?thesis by (rule match_group_defined)
qed

lemma clean_phone_total: "\<exists>c. clean_phone ph = Inr c"
  by (cases "strip_non_digits ph")
     (auto simp: clean_phone_def Let_def index0_def split: sum.splits bool.splits)

lemma clean_phones_total: "\<exists>cs. clean_phones phs = Inr cs"
proof (induction phs)
  case Nil
  show ?case by simp
next
  case (Cons ph phs)
  then obtain cs where cs: "clean_phones phs = Inr cs" by blast
  obtain c where "clean_phone ph = Inr c" using clean_phone_total by blast
  with cs show ?case by simp
qed

lemma dict_set_keys: "k \<in> fst ` set d \<Longrightarrow> map fst (dict_set k v d) = map fst d"
  by (induction d) force+

lemma map_of_dict_set: "map_of (dict_set k v d) = (map_of d)(k \<mapsto> v)"
  by (induction d) auto

lemma extract_field_form:
  assumes "fp \<in> set fields"
  shows "\<exists>upd. (\<forall>d. extract_field t fp d = Inr (case upd of None \<Rightarrow> d | Some v \<Rightarrow> dict_set (fst fp) v d)) \<and>
               ((\<forall>m. re_search True (snd fp) t = Some m \<longrightarrow> strip_opt (match_group m 1) = Inr []) \<longrightarrow> upd = None)"
proof (cases "re_search True (snd fp) t")
  case None
  then have "\<forall>d. extract_field t fp d = Inr d"
    by (cases fp) (simp add: extract_field_def)
  then show ?thesis by (intro exI [of _ None]) simp
next
  case (Some m)
  with assms obtain s where s: "match_group m 1 = Some s"
    by (blast dest: fields_search_group)
  show ?thesis
  proof (cases "strip s = []")
    case True
    with Some s have "\<forall>d. extract_field t fp d = Inr d"
      by (cases fp) (simp add: extract_field_def strip_opt_def)
    then show ?thesis by (intro exI [of _ None]) simp
  next
    case False
    obtain cs where cs: "clean_phones (re_findall False phone_pattern (strip s)) = Inr cs"
      using clean_phones_total by blast
    define v where "v =
      (if fst fp = ''Phone'' then joined_or_NA cs
       else if fst fp = ''Email'' then joined_or_NA (re_findall True email_pattern (strip s))
       else if fst fp = ''Website'' then joined_or_NA (re_findall False website_pattern (strip s))
       else strip s)"
    from Some s False cs have "\<forall>d. extract_field t fp d = Inr (dict_set (fst fp) v d)"
      by (cases fp) (simp add: extract_field_def strip_opt_def v_def)
    moreover from Some s False have "\<not> (\<forall>m. re_search True (snd fp) t = Some m \<longrightarrow> strip_opt (match_group m 1) = Inr [])"
      by (simp add: strip_opt_def)
    ultimately show ?thesis by (intro exI [of _ "Some v"]) simp
  qed
qed

lemma extract_field_result:
  assumes "fp \<in> set fields" and "fst fp \<in> fst ` set d"
  shows "\<exists>d'. extract_field t fp d = Inr d' \<and> map fst d' = map fst d \<and>
               (\<forall>k. k \<noteq> fst fp \<longrightarrow> map_of d' k = map_of d k) \<and>
               ((\<forall>m. re_search True (snd fp) t = Some m \<longrightarrow> strip_opt (match_group m 1) = Inr []) \<longrightarrow> d' = d)"
proof -
  from extract_field_form [OF assms(1), of t] obtain upd where
    upd: "\<And>d. extract_field t fp d = Inr (case upd of None \<Rightarrow> d | Some v \<Rightarrow> dict_set (fst fp) v d)"
    and none: "(\<forall>m. re_search True (snd fp) t = Some m \<longrightarrow> strip_opt (match_group m 1) = Inr []) \<longrightarrow> upd = None"
    by blast
  show ?thesis
  proof (cases upd)
    case None
    with upd [of d] show ?thesis by simp
  next
    case (Some v)
    with upd [of d] none assms(2) show ?thesis
      by (auto simp: dict_set_keys map_of_dict_set)
  qed
qed

lemma extract_field_indep:
  assumes "fp \<in> set fields" and "map_of d (fst fp) = map_of d0 (fst fp)"
    and "extract_field t fp d = Inr d'" and "extract_field t fp d0 = Inr d0'"
  shows "map_of d' (fst fp) = map_of d0' (fst fp)"
proof -
  from extract_field_form [OF assms(1), of t] obtain upd where
    upd: "\<And>d. extract_field t fp d = Inr (case upd of None \<Rightarrow> d | Some v \<Rightarrow> dict_set (fst fp) v d)"
    by blast
  from upd [of d] upd [of d0] assms(2-4) show ?thesis
    by (cases upd) (auto simp: map_of_dict_set)
qed

lemma extract_fields_result:
  assumes "set fps \<subseteq> set fields" and "distinct (map fst fps)" and "fst ` set fps \<subseteq> fst ` set d"
  shows "\<exists>r. extract_fields t fps d = Inr r \<and> map fst r = map fst d \<and>
             (\<forall>k. k \<notin> fst ` set fps \<longrightarrow> map_of r k = map_of d k) \<and>
             (\<forall>fp\<in>set fps. \<exists>d1. extract_field t fp d = Inr d1 \<and> map_of r (fst fp) = map_of d1 (fst fp))"
  using assms
proof (induction fps arbitrary: d)
  case Nil
  show ?case by simp
next
  case (Cons fp fps)
  from Cons.prems have fp: "fp \<in> set fields" and key: "fst fp \<in> fst ` set d" by auto
  from extract_field_result [OF fp key, of t] obtain d' where
    d': "extract_field t fp d = Inr d'" and keys: "map fst d' = map fst d"
    and other: "\<And>k. k \<noteq> fst fp \<Longrightarrow> map_of d' k = map_of d k"
    by blast
  from keys have "set (map fst d') = set (map fst d)" by simp
  then have same: "fst ` set d' = fst ` set d" by simp
  from Cons.prems have "set fps \<subseteq> set fields" "distinct (map fst fps)" "fst ` set fps \<subseteq> fst ` set d'"
    by (auto simp: same)
  from Cons.IH [OF this] obtain r where
    r: "extract_fields t fps d' = Inr r" and rkeys: "map fst r = map fst d'"
    and rother: "\<And>k. k \<notin> fst ` set fps \<Longrightarrow> map_of r k = map_of d' k"
    and rfields: "\<And>fq. fq \<in> set fps \<Longrightarrow> \<exists>d1. extract_field t fq d' = Inr d1 \<and> map_of r (fst fq) = map_of d1 (fst fq)"
    by blast
  from Cons.prems(2) have notin: "fst fp \<notin> fst ` set fps" by simp
  have each: "\<exists>d1. extract_field t fq d = Inr d1 \<and> map_of r (fst fq) = map_of d1 (fst fq)"
    if fq: "fq \<in> set (fp # fps)" for fq
  proof (cases "fq = fp")
    case True
    with d' rother [OF notin] show ?thesis by simp
  next
    case False
    with fq have fq': "fq \<in> set fps" by simp
    with notin have ne: "fst fq \<noteq> fst fp" by (metis imageI)
    from fq' Cons.prems have fqf: "fq \<in> set fields" and fqk: "fst fq \<in> fst ` set d" by auto
    from rfields [OF fq'] obtain d1' where
      d1': "extract_field t fq d' = Inr d1'" and eq: "map_of r (fst fq) = map_of d1' (fst fq)"
      by blast
    from extract_field_result [OF fqf fqk, of t] obtain d1 where d1: "extract_field t fq d = Inr d1"
      by blast
    from extract_field_indep [OF fqf other [OF ne] d1' d1] eq d1 show ?thesis by simp
  qed
  have rest: "map_of r k = map_of d k" if "k \<notin> fst ` set (fp # fps)" for k
    using that rother [of k] other [of k] by simp
  have run: "extract_fields t (fp # fps) d = Inr r" using d' r by simp
  have "map fst r = map fst d" using rkeys keys by simp
  with run each rest show ?case by blast
qed

lemma extract_name_result:
  "\<exists>d. extract_name t initial_data = Inr d \<and> map fst d = map fst initial_data \<and>
       (\<forall>k. k \<noteq> ''School Name'' \<longrightarrow> map_of d k = map_of initial_data k)"
proof (cases "re_match False name_pattern t")
  case None
  then show ?thesis by (simp add: extract_name_def)
next
  case (Some m)
  then obtain s where "match_group m 1 = Some s" by (blast dest: name_match_group)
  with Some have "extract_name t initial_data = Inr (dict_set ''School Name'' (strip s) initial_data)"
    by (simp add: extract_name_def strip_opt_def)
  moreover have "''School Name'' \<in> fst ` set initial_data" by (simp add: initial_data_def)
  ultimately show ?thesis by (simp add: dict_set_keys map_of_dict_set)
qed

lemma fields_keys:
  "distinct (map fst fields)" "fst ` set fields \<subseteq> fst ` set initial_data"
  "''School Name'' \<notin> fst ` set fields"
  by (simp_all add: fields_def initial_data_def)

lemma initial_data_NA: "fp \<in> set fields \<Longrightarrow> map_of initial_data (fst fp) = Some ''NA''"
  by (auto simp: fields_def initial_data_def)

lemma extract_school_data_result:
  "\<exists>r. extract_school_data text = Inr r \<and> map fst r = map fst initial_data \<and>
       (\<forall>fp\<in>set fields. \<exists>d1. extract_field (normalize_block text) fp initial_data = Inr d1 \<and>
            map_of r (fst fp) = map_of d1 (fst fp))"
proof -
  let ?t = "normalize_block text"
  from extract_name_result [of ?t] obtain d where
    d: "extract_name ?t initial_data = Inr d" and keys: "map fst d = map fst initial_data"
    and other: "\<And>k. k \<noteq> ''School Name'' \<Longrightarrow> map_of d k = map_of initial_data k"
    by blast
  from keys have "set (map fst d) = set (map fst initial_data)" by simp
  then have same: "fst ` set d = fst ` set initial_data" by simp
  have "fst ` set fields \<subseteq> fst ` set d" using fields_keys(2) by (simp add: same)
  from extract_fields_result [OF subset_refl fields_keys(1) this, of ?t] obtain r where
    r: "extract_fields ?t fields d = Inr r" and rkeys: "map fst r = map fst d"
    and rfields: "\<And>fp. fp \<in> set fields \<Longrightarrow> \<exists>d1. extract_field ?t fp d = Inr d1 \<and> map_of r (fst fp) = map_of d1 (fst fp)"
    by blast
  have "\<exists>d1. extract_field ?t fp initial_data = Inr d1 \<and> map_of r (fst fp) = map_of d1 (fst fp)"
    if fp: "fp \<in> set fields" for fp
  proof -
    from rfields [OF fp] obtain d1 where
      d1: "extract_field ?t fp d = Inr d1" and eq: "map_of r (fst fp) = map_of d1 (fst fp)"
      by blast
    from fp fields_keys(3) have ne: "fst fp \<noteq> ''School Name''" by (metis imageI)
    from fp fields_keys(2) have "fst fp \<in> fst ` set initial_data" by blast
    from extract_field_result [OF fp this, of ?t] obtain d0 where
      d0: "extract_field ?t fp initial_data = Inr d0" by blast
    from extract_field_indep [OF fp other [OF ne] d1 d0] eq d0 show ?thesis by simp
  qed
  with d r rkeys keys show ?thesis
    by (simp add: extract_school_data_def Let_def)
qed

lemma extract_field_miss:
  assumes "fp \<in> set fields"
    and "\<forall>m. re_search True (snd fp) t = Some m \<longrightarrow> strip_opt (match_group m 1) = Inr []"
    and "extract_field t fp initial_data = Inr d1"
  shows "map_of d1 (fst fp) = Some ''NA''"
proof -
  from assms(1) fields_keys(2) have "fst fp \<in> fst ` set initial_data" by blast
  from extract_field_result [OF assms(1) this, of t] assms(2,3) have "d1 = initial_data" by auto
  with initial_data_NA [OF assms(1)] show ?thesis by simp
qed

section \<open>Label matching\<close>

lemma ms_str:
  "\<exists>q. ms ic (str w) (p, a, g) = (if label_at ic a w then [(q, drop (length w) a, g)] else [])"
proof (induction w arbitrary: p a)
  case Nil
  show ?case by simp
next
  case (Cons c cs)
  show ?case
  proof (cases a)
    case Nil
    then show ?thesis by simp
  next
    case (Cons x xs)
    from Cons.IH [of "Some x" xs] obtain q where
      "ms ic (str cs) (Some x, xs, g) = (if label_at ic xs cs then [(q, drop (length cs) xs, g)] else [])"
      by blast
    with Cons show ?thesis by auto
  qed
qed

lemma ms_Seq_nonempty:
  "ms ic (Seq r1 r2) st \<noteq> [] \<longleftrightarrow> (\<exists>m\<in>set (ms ic r1 st). ms ic r2 m \<noteq> [])"
  by auto

lemma alts_last: "ms ic r st \<noteq> [] \<Longrightarrow> ms ic (alts (rs @ [r])) st \<noteq> []"
proof (induction rs)
  case Nil
  then show ?case by simp
next
  case (Cons x rs)
  obtain y ys where "rs @ [r] = y # ys" by (cases "rs @ [r]") auto
  with Cons show ?case by simp
qed

lemma boundary_at_end: "ms ic (boundary ls) (p, [], g) \<noteq> []"
proof -
  have "ms ic Eol (p, [], g) \<noteq> []" by simp
  then have "ms ic (alts (map (\<lambda>l. str (l @ '':'')) ls @ [Eol])) (p, [], g) \<noteq> []"
    by (rule alts_last)
  then show ?thesis by (simp add: boundary_def)
qed

lemma fst_snd_last_runs_all:
  "\<forall>c\<in>set a. P c \<Longrightarrow> snd (last (runs P None p a)) = []"
  by (simp add: snd_last_runs_None)

lemma capture_to_end:
  assumes "newline \<notin> set a"
  shows "ms ic (Seq (Grp 1 (Rep 0 None False any_char)) (boundary ls)) (p, a, g) \<noteq> []"
proof -
  let ?rs = "runs any_char None p a"
  have all: "\<forall>c\<in>set a. any_char c" using assms by (auto simp: any_char_def)
  obtain q b where last: "last ?rs = (q, b)" by (cases "last ?rs")
  with fst_snd_last_runs_all [OF all, of p] have b: "b = []" by simp
  have "last ?rs \<in> set ?rs" by (simp add: runs_nonempty)
  then have "(q, [], (1, take (length a - length ([] :: string)) a) # g) \<in> set (ms ic (Grp 1 (Rep 0 None False any_char)) (p, a, g))"
    unfolding last b by (force simp: Let_def)
  with boundary_at_end show ?thesis unfolding ms_Seq_nonempty by blast
qed

lemma field_pattern_matches:
  assumes "newline \<notin> set a"
  shows "ms True (field_pattern l ls) (p, a, g) \<noteq> [] \<longleftrightarrow> label_at True a (l @ '':'')"
proof -
  let ?tail = "Seq (Grp 1 (Rep 0 None False any_char)) (boundary ls)"
  let ?rest = "Seq (Rep 0 None True is_space) ?tail"
  have fp: "field_pattern l ls = Seq (str (l @ '':'')) ?rest"
    by (simp add: field_pattern_def)
  obtain q where q: "ms True (str (l @ '':'')) (p, a, g) =
      (if label_at True a (l @ '':'') then [(q, drop (length (l @ '':'')) a, g)] else [])"
    using ms_str by blast
  show ?thesis
  proof (cases "label_at True a (l @ '':'')")
    case False
    with q show ?thesis by (simp add: fp)
  next
    case True
    let ?b = "drop (length (l @ '':'')) a"
    have nl: "newline \<notin> set ?b" using assms by (auto dest: in_set_dropD)
    have "ms True (Rep 0 None True is_space) (q, ?b, g) \<noteq> []"
      by (simp add: runs_nonempty)
    then obtain m where m: "m \<in> set (ms True (Rep 0 None True is_space) (q, ?b, g))"
      by (meson last_in_set)
    obtain p1 a1 g1 where m_eq: "m = (p1, a1, g1)" by (cases m)
    from m have "(p1, a1, g1) \<in> set (ms True (Rep 0 None True is_space) (q, ?b, g))"
      unfolding m_eq .
    from ms_sound [OF this] obtain w where "?b = w @ a1" by blast
    with nl have "newline \<notin> set a1" by (metis Un_iff set_append)
    from capture_to_end [OF this] have "ms True ?tail m \<noteq> []" by (simp add: m_eq)
    with m have "ms True ?rest (q, ?b, g) \<noteq> []" unfolding ms_Seq_nonempty by blast
    with q True show ?thesis by (simp add: fp)
  qed
qed

lemma first_match_None_iff: "first_match ic r False p a = None \<longleftrightarrow> ms ic r (p, a, []) = []"
  by (cases "ms ic r (p, a, [])") (auto simp: first_match_def)

lemma search_field_pattern:
  "newline \<notin> set a \<Longrightarrow>
   search_from True (field_pattern l ls) p a \<noteq> None \<longleftrightarrow> label_in True a (l @ '':'')"
proof (induction a arbitrary: p)
  case Nil
  have "first_match True (field_pattern l ls) False p [] \<noteq> None \<longleftrightarrow> label_at True [] (l @ '':'')"
    using field_pattern_matches [of "[]" l ls p "[]"] by (simp add: first_match_None_iff)
  then show ?case by (auto split: option.splits)
next
  case (Cons x xs)
  have "first_match True (field_pattern l ls) False p (x # xs) \<noteq> None \<longleftrightarrow> label_at True (x # xs) (l @ '':'')"
    using field_pattern_matches [OF Cons.prems, of l ls p "[]"] by (simp add: first_match_None_iff)
  moreover from Cons have "search_from True (field_pattern l ls) (Some x) xs \<noteq> None \<longleftrightarrow> label_in True xs (l @ '':'')"
    by simp
  ultimately show ?case by (auto split: option.splits)
qed

lemma collapse_no_newline: "newline \<notin> set (collapse s)"
  by (induction s rule: collapse.induct) (auto simp: is_space_def code_def newline_def)

lemma set_strip: "set (strip s) \<subseteq> set s"
proof
  fix x
  assume "x \<in> set (strip s)"
  then have "x \<in> set (dropWhile is_space (rev (dropWhile is_space s)))"
    by (simp add: strip_def)
  then have "x \<in> set (rev (dropWhile is_space s))" by (rule set_dropWhileD)
  then have "x \<in> set (dropWhile is_space s)" by simp
  then show "x \<in> set s" by (rule set_dropWhileD)
qed

lemma normalized_no_newline: "newline \<notin> set (normalize_block s)"
  using set_strip [of "normalize_whitespace s"] collapse_no_newline [of s]
  by (auto simp: normalize_whitespace_collapse normalize_block_def)

lemma ms_alts_nonempty:
  "rs \<noteq> [] \<Longrightarrow> ms ic (alts rs) st \<noteq> [] \<longleftrightarrow> (\<exists>r\<in>set rs. ms ic r st \<noteq> [])"
proof (induction rs rule: alts.induct)
  case 1
  then show ?case by simp
next
  case (2 r)
  show ?case by simp
next
  case (3 r v va)
  then show ?case by simp
qed

lemma ms_str_nonempty: "ms ic (str w) (p, a, g) \<noteq> [] \<longleftrightarrow> label_at ic a w"
  using ms_str [of ic w p a g] by (auto split: if_splits)

lemma boundary_matches:
  assumes "newline \<notin> set a"
  shows "ms ic (boundary ls) (p, a, g) = (if a = [] \<or> at_boundary ic ls a then [(p, a, g)] else [])"
proof -
  let ?rs = "map (\<lambda>l. str (l @ '':'')) ls @ [Eol]"
  have "ms ic (alts ?rs) (p, a, g) \<noteq> [] \<longleftrightarrow> (\<exists>r\<in>set ?rs. ms ic r (p, a, g) \<noteq> [])"
    by (rule ms_alts_nonempty) simp
  also have "\<dots> \<longleftrightarrow> (\<exists>l\<in>set ls. ms ic (str (l @ '':'')) (p, a, g) \<noteq> []) \<or> ms ic Eol (p, a, g) \<noteq> []"
    by auto
  also have "\<dots> \<longleftrightarrow> at_boundary ic ls a \<or> a = []"
    using assms by (auto simp: ms_str_nonempty at_boundary_def)
  finally show ?thesis by (auto simp: boundary_def)
qed

lemma runs_length: "(p', a') \<in> set (runs P hi p a) \<Longrightarrow> length a' \<le> length a"
proof -
  assume "(p', a') \<in> set (runs P hi p a)"
  then have "(p', a') \<in> set (drop 0 (runs P hi p a))" by simp
  from in_runs [OF this] show ?thesis by auto
qed

lemma runs_cands:
  "map (\<lambda>(p', a'). (p', a', pre @ take (length a - length a') a)) (runs P None p a) = cands P pre p a"
proof (induction a arbitrary: p pre)
  case Nil
  show ?case by simp
next
  case (Cons x xs)
  have "map (\<lambda>(p', a'). (p', a', pre @ take (length (x # xs) - length a') (x # xs))) (runs P None (Some x) xs) =
        map (\<lambda>(p', a'). (p', a', (pre @ [x]) @ take (length xs - length a') xs)) (runs P None (Some x) xs)"
  proof (rule map_cong [OF refl])
    fix st
    assume st: "st \<in> set (runs P None (Some x) xs)"
    obtain p' a' where st_eq: "st = (p', a')" by (cases st)
    with st have "length a' \<le> length xs" by (auto dest: runs_length)
    then have "length (x # xs) - length a' = Suc (length xs - length a')" by simp
    then show "(case st of (p', a') \<Rightarrow> (p', a', pre @ take (length (x # xs) - length a') (x # xs))) =
               (case st of (p', a') \<Rightarrow> (p', a', (pre @ [x]) @ take (length xs - length a') xs))"
      by (simp add: st_eq)
  qed
  also have "\<dots> = cands P (pre @ [x]) (Some x) xs" by (rule Cons.IH)
  finally show ?case by simp
qed

lemma ms_capture:
  "ms ic (Grp n (Rep 0 None False P)) (p, a, g) =
     map (\<lambda>(p', a', w). (p', a', (n, w) # g)) (cands P [] p a)"
proof -
  have "ms ic (Grp n (Rep 0 None False P)) (p, a, g) =
      map (\<lambda>(p', a', w). (p', a', (n, w) # g))
        (map (\<lambda>(p', a'). (p', a', [] @ take (length a - length a') a)) (runs P None p a))"
    by (simp add: Let_def case_prod_beta)
  then show ?thesis unfolding runs_cands .
qed

lemma capture_head:
  assumes "newline \<notin> set a"
  shows "\<exists>q a' rest.
           concat (map (ms ic (boundary ls)) (map (\<lambda>(p', a', w). (p', a', (n, w) # g)) (cands any_char pre p a))) =
           (q, a', (n, pre @ up_to_boundary ic ls a) # g) # rest"
  using assms
proof (induction a arbitrary: p pre)
  case Nil
  show ?case by (simp add: boundary_matches)
next
  case (Cons x xs)
  then have x: "any_char x" and nl: "newline \<notin> set xs" by (auto simp: any_char_def)
  show ?case
  proof (cases "at_boundary ic ls (x # xs)")
    case True
    with Cons.prems show ?thesis by (simp add: boundary_matches)
  next
    case False
    from Cons.IH [OF nl, of "pre @ [x]" "Some x"] obtain q a' rest where
      "concat (map (ms ic (boundary ls)) (map (\<lambda>(p', a', w). (p', a', (n, w) # g)) (cands any_char (pre @ [x]) (Some x) xs))) =
       (q, a', (n, (pre @ [x]) @ up_to_boundary ic ls xs) # g) # rest"
      by blast
    with False Cons.prems x show ?thesis
      by (simp add: boundary_matches)
  qed
qed

lemma capture_first:
  assumes "newline \<notin> set a"
  shows "\<exists>q a' rest. ms ic (Seq (Grp 1 (Rep 0 None False any_char)) (boundary ls)) (p, a, g) =
           (q, a', (1, up_to_boundary ic ls a) # g) # rest"
proof -
  have "ms ic (Seq (Grp 1 (Rep 0 None False any_char)) (boundary ls)) (p, a, g) =
      concat (map (ms ic (boundary ls)) (map (\<lambda>(p', a', w). (p', a', (1, w) # g)) (cands any_char [] p a)))"
    unfolding ms.simps(7) ms_capture ..
  with capture_head [OF assms, of ic ls 1 g "[]" p] show ?thesis by simp
qed

lemma fields_other_labels:
  "fields = map (\<lambda>l. (l, field_pattern l (other_labels l))) label_names"
  by (simp add: fields_def label_names_def other_labels_def)

lemma name_pattern_seq:
  "name_pattern = Seq Bol (Seq (Grp 1 (Rep 0 None False any_char)) (boundary label_names))"
  by (simp add: name_pattern_def label_names_def)

lemma match_group_head: "match_group ((n, w) # g) n = Some w"
  by (simp add: match_group_def)

lemma name_capture:
  assumes "newline \<notin> set t"
  shows "\<exists>m. re_match False name_pattern t = Some m \<and>
             match_group m 1 = Some (up_to_boundary False label_names t)"
proof -
  from capture_first [OF assms, of False label_names None "[]"] obtain q a' rest where
    "ms False (Seq (Grp 1 (Rep 0 None False any_char)) (boundary label_names)) (None, t, []) =
       (q, a', [(1, up_to_boundary False label_names t)]) # rest"
    by blast
  then have "ms False name_pattern (None, t, []) = (q, a', [(1, up_to_boundary False label_names t)]) # rest"
    unfolding name_pattern_seq by simp
  then have "re_match False name_pattern t = Some [(1, up_to_boundary False label_names t)]"
    by (simp add: re_match_def first_match_def)
  then show ?thesis by (simp add: match_group_head)
qed

lemma field_first_match:
  assumes "newline \<notin> set a" and "label_at True a (l @ '':'')"
  shows "\<exists>q a'. first_match True (field_pattern l ls) False p a =
           Some (q, a', [(1, up_to_boundary True ls (dropWhile is_space (drop (length (l @ '':'')) a)))])"
proof -
  let ?tail = "Seq (Grp 1 (Rep 0 None False any_char)) (boundary ls)"
  let ?ws = "Rep 0 None True is_space"
  define b where "b = drop (length (l @ '':'')) a"
  have fp: "field_pattern l ls = Seq (str (l @ '':'')) (Seq ?ws ?tail)"
    by (simp add: field_pattern_def)
  obtain q0 where q0: "ms True (str (l @ '':'')) (p, a, []) = [(q0, b, [])]"
    using ms_str [of True "l @ '':''" p a "[]"] assms(2) unfolding b_def by auto
  define rs where "rs = runs is_space None q0 b"
  have ne: "rs \<noteq> []" unfolding rs_def by (rule runs_nonempty)
  then have "rs = butlast rs @ [last rs]" by simp
  then have rv: "rev rs = last rs # rev (butlast rs)"
    by (metis rev.simps(2) rev_rev_ident rev_singleton_conv rev_append append_Cons append_Nil)
  obtain q1 where last: "last rs = (q1, dropWhile is_space b)"
    using snd_last_runs_None [of is_space q0 b] unfolding rs_def by (cases "last (runs is_space None q0 b)") auto
  have "ms True ?ws (q0, b, []) = map (\<lambda>(p', a'). (p', a', [])) (rev rs)"
    by (simp add: rs_def rev_map)
  then have ws: "ms True ?ws (q0, b, []) =
      (q1, dropWhile is_space b, []) # map (\<lambda>(p', a'). (p', a', [])) (rev (butlast rs))"
    by (simp add: rv last)
  have "newline \<notin> set b" using assms(1) unfolding b_def by (auto dest: in_set_dropD)
  then have "newline \<notin> set (dropWhile is_space b)" by (auto dest: set_dropWhileD)
  from capture_first [OF this, of True ls q1 "[]"] obtain q a' rest where
    tail: "ms True ?tail (q1, dropWhile is_space b, []) =
       (q, a', [(1, up_to_boundary True ls (dropWhile is_space b))]) # rest"
    by blast
  have "ms True (field_pattern l ls) (p, a, []) =
      concat (map (ms True ?tail) (ms True ?ws (q0, b, [])))"
    unfolding fp ms.simps(7) q0 by simp
  also have "\<dots> = (q, a', [(1, up_to_boundary True ls (dropWhile is_space b))]) #
      (rest @ concat (map (ms True ?tail) (map (\<lambda>(p', a'). (p', a', [])) (rev (butlast rs)))))"
    unfolding ws using tail by simp
  finally have "first_match True (field_pattern l ls) False p a =
      Some (q, a', [(1, up_to_boundary True ls (dropWhile is_space b))])"
    by (simp add: first_match_def)
  then show ?thesis unfolding b_def by blast
qed

lemma label_colon_not_at_end: "\<not> label_at ic [] (l @ '':'')"
  by (cases l) simp_all

lemma field_search_capture:
  assumes "newline \<notin> set a" and "search_from True (field_pattern l ls) p a = Some m"
  shows "match_group m 1 = captured l ls a"
  using assms
proof (induction a arbitrary: p)
  case Nil
  have "ms True (field_pattern l ls) (p, [], []) = []"
    using field_pattern_matches [of "[]" l ls p "[]"] by (simp add: label_colon_not_at_end)
  then have "first_match True (field_pattern l ls) False p [] = None"
    by (simp add: first_match_None_iff)
  with Nil.prems show ?case by simp
next
  case (Cons x xs)
  show ?case
  proof (cases "label_at True (x # xs) (l @ '':'')")
    case True
    from field_first_match [OF Cons.prems(1) True, of ls p] obtain q a' where
      "first_match True (field_pattern l ls) False p (x # xs) =
         Some (q, a', [(1, up_to_boundary True ls (dropWhile is_space (drop (length (l @ '':'')) (x # xs))))])"
      by blast
    with Cons.prems(2) have "m = [(1, up_to_boundary True ls (dropWhile is_space (drop (length (l @ '':'')) (x # xs))))]"
      by simp
    with True show ?thesis by (simp add: captured_def match_group_def)
  next
    case False
    then have "ms True (field_pattern l ls) (p, x # xs, []) = []"
      using field_pattern_matches [OF Cons.prems(1), of l ls p "[]"] by simp
    then have none: "first_match True (field_pattern l ls) False p (x # xs) = None"
      by (simp add: first_match_None_iff)
    with Cons.prems(2) have "search_from True (field_pattern l ls) (Some x) xs = Some m" by simp
    moreover from Cons.prems(1) have "newline \<notin> set xs" by simp
    ultimately have "match_group m 1 = captured l ls xs" by (rule Cons.IH [rotated])
    with False show ?thesis by (simp add: captured_def)
  qed
qed

text \<open>
  C6, as amended. A label is matched as plain text together with its colon, without a
  test for word boundaries. For every span and every labelled field: the field's pattern
  finds a match exactly when the label followed by a colon occurs somewhere in the
  normalised span, compared without regard to case; the text it captures runs from the
  first such occurrence to the first place where another label followed by a colon
  stands, again as plain text and without regard to case, or to the end. The name is the
  text before the first place where a label followed by a colon stands as plain text, in
  the case written in the pattern. So a label without its colon never matches, and a label
  with its colon matches also at the end of a longer word.
\<close>

theorem labels_match_as_plain_text:
  "(\<forall>fp\<in>set fields.
      (re_search True (snd fp) (normalize_block span) \<noteq> None) =
        label_in True (normalize_block span) (fst fp @ '':'') \<and>
      (\<forall>m. re_search True (snd fp) (normalize_block span) = Some m \<longrightarrow>
           match_group m 1 = captured (fst fp) (other_labels (fst fp)) (normalize_block span))) \<and>
   (\<exists>m. re_match False name_pattern (normalize_block span) = Some m \<and>
        match_group m 1 = Some (up_to_boundary False label_names (normalize_block span)))"
proof (intro conjI ballI allI impI)
  fix fp
  assume "fp \<in> set fields"
  then obtain l where fp: "fp = (l, field_pattern l (other_labels l))"
    unfolding fields_other_labels by auto
  show "(re_search True (snd fp) (normalize_block span) \<noteq> None) =
        label_in True (normalize_block span) (fst fp @ '':'')"
    using search_field_pattern [OF normalized_no_newline, of l "other_labels l" None span]
    by (simp add: re_search_def fp)
  fix m
  assume "re_search True (snd fp) (normalize_block span) = Some m"
  then have "search_from True (field_pattern l (other_labels l)) None (normalize_block span) = Some m"
    by (simp add: re_search_def fp)
  from field_search_capture [OF normalized_no_newline this]
  show "match_group m 1 = captured (fst fp) (other_labels (fst fp)) (normalize_block span)"
    by (simp add: fp)
next
  show "\<exists>m. re_match False name_pattern (normalize_block span) = Some m \<and>
        match_group m 1 = Some (up_to_boundary False label_names (normalize_block span))"
    using normalized_no_newline by (rule name_capture)
qed

text \<open>The theorem at a span in which \<open>location:\<close> occurs only inside \<open>Relocation:\<close>.\<close>

theorem labels_match_as_plain_text_witness:
  "label_in True (normalize_block ''Rongai Academy Relocation: Ngong Road'') ''Location:'' \<and>
   (\<exists>m. re_search True
          (field_pattern ''Location''
             [''Address'', ''City/ Town'', ''County'', ''Country'', ''Website'', ''Phone'', ''Email'', ''Fax''])
          (normalize_block ''Rongai Academy Relocation: Ngong Road'') = Some m \<and>
        match_group m 1 = Some ''Ngong Road'')"
proof -
  let ?t = "normalize_block ''Rongai Academy Relocation: Ngong Road''"
  let ?loc = "(''Location'', field_pattern ''Location''
         [''Address'', ''City/ Town'', ''County'', ''Country'', ''Website'', ''Phone'', ''Email'', ''Fax''])"
  have mem: "?loc \<in> set fields" by (simp add: fields_def)
  have occ: "label_in True ?t ''Location:''" by code_simp
  have cap: "captured ''Location'' (other_labels ''Location'') ?t = Some ''Ngong Road''" by code_simp
  from labels_match_as_plain_text [of "''Rongai Academy Relocation: Ngong Road''"] mem
  have found: "(re_search True (snd ?loc) ?t \<noteq> None) = label_in True ?t (fst ?loc @ '':'')"
    and grp: "\<And>m. re_search True (snd ?loc) ?t = Some m \<Longrightarrow>
      match_group m 1 = captured (fst ?loc) (other_labels (fst ?loc)) ?t"
    by blast+
  from found occ obtain m where m: "re_search True (snd ?loc) ?t = Some m" by auto
  from grp [OF m] cap have "match_group m 1 = Some ''Ngong Road''" by simp
  with m occ show ?thesis by auto
qed

text \<open>
  C6 as stated fails: in this span the label \<open>Location:\<close> is matched inside the word
  \<open>Relocation:\<close>, and the text after it is stored as the location.
\<close>

theorem label_inside_word_counterexample:
  "extract_school_data ''Rongai Academy Relocation: Ngong Road'' =
     Inr [(''School Name'', ''Rongai Academy Relocation: Ngong Road''),
          (''Location'', ''Ngong Road''), (''Address'', ''NA''),
          (''City/ Town'', ''NA''), (''County'', ''NA''), (''Country'', ''NA''), (''Website'', ''NA''),
          (''Phone'', ''NA''), (''Email'', ''NA''), (''Fax'', ''NA'')]"
  by code_simp

section \<open>The record of a span\<close>




text \<open>
  C8. Field extraction is total: for every span it returns a record and raises no
  exception. A field whose pattern finds no match has the value \<open>NA\<close>, and the value of
  every labelled field is the one that its own round of the loop computes from the
  initial record, whatever happened to the other fields.
\<close>

theorem extract_school_data_never_raises:
  "\<exists>r. extract_school_data span = Inr r \<and>
       (\<forall>fp\<in>set fields.
          re_search True (snd fp) (normalize_block span) = None \<longrightarrow>
          map_of r (fst fp) = Some ''NA'') \<and>
       (\<forall>fp\<in>set fields.
          \<exists>d. extract_field (normalize_block span) fp initial_data = Inr d \<and>
              map_of r (fst fp) = map_of d (fst fp))"
proof -
  from extract_school_data_result [of span] obtain r where
    r: "extract_school_data span = Inr r"
    and each: "\<And>fp. fp \<in> set fields \<Longrightarrow>
      \<exists>d. extract_field (normalize_block span) fp initial_data = Inr d \<and>
          map_of r (fst fp) = map_of d (fst fp)"
    by blast
  have "map_of r (fst fp) = Some ''NA''"
    if "fp \<in> set fields" and "re_search True (snd fp) (normalize_block span) = None" for fp
  proof -
    from that(2) have "\<forall>m. re_search True (snd fp) (normalize_block span) = Some m \<longrightarrow>
        strip_opt (match_group m 1) = Inr []"
      by simp
    with each [OF that(1)] extract_field_miss [OF that(1)] show ?thesis by auto
  qed
  with r each show ?thesis by blast
qed

text \<open>The theorem at a span with a phone number and no location.\<close>

theorem extract_school_data_never_raises_witness:
  "\<exists>r. extract_school_data ''Alpha School Phone: 0712345678'' = Inr r \<and>
       map_of r ''Location'' = Some ''NA'' \<and> map_of r ''Phone'' = Some ''0712345678''"
proof -
  let ?t = "''Alpha School Phone: 0712345678''"
  let ?loc = "(''Location'', field_pattern ''Location''
         [''Address'', ''City/ Town'', ''County'', ''Country'', ''Website'', ''Phone'', ''Email'', ''Fax''])"
  let ?phone = "(''Phone'', field_pattern ''Phone''
         [''Location'', ''Address'', ''City/ Town'', ''County'', ''Country'', ''Website'', ''Email'', ''Fax''])"
  have mem: "?loc \<in> set fields" "?phone \<in> set fields" by (simp_all add: fields_def)
  have miss: "re_search True (snd ?loc) (normalize_block ?t) = None"
    by code_simp
  have alone: "(case extract_field (normalize_block ?t) ?phone initial_data of
                  Inl e \<Rightarrow> None | Inr d \<Rightarrow> map_of d ''Phone'') = Some ''0712345678''"
    by code_simp
  from extract_school_data_never_raises [of ?t] obtain r where
    r: "extract_school_data ?t = Inr r"
    and none: "\<And>fp. fp \<in> set fields \<Longrightarrow>
          re_search True (snd fp) (normalize_block ?t) = None \<Longrightarrow>
          map_of r (fst fp) = Some ''NA''"
    and each: "\<And>fp. fp \<in> set fields \<Longrightarrow>
          \<exists>d. extract_field (normalize_block ?t) fp initial_data = Inr d \<and>
              map_of r (fst fp) = map_of d (fst fp)"
    by blast
  from none [OF mem(1) miss] have "map_of r ''Location'' = Some ''NA''" by simp
  moreover from each [OF mem(2)] alone have "map_of r ''Phone'' = Some ''0712345678''" by auto
  ultimately show ?thesis using r by blast
qed


section \<open>Segmentation\<close>

text \<open>
  The number of records in general: the blocks are joined in pairs, so \<open>n\<close> blocks give
  \<open>(n + 1) div 2\<close> records.
\<close>

lemma extract_all_total: "\<exists>rs. extract_all bs = Inr rs \<and> length rs = length bs"
proof (induction bs)
  case Nil
  show ?case by simp
next
  case (Cons b bs)
  then obtain rs where "extract_all bs = Inr rs" "length rs = length bs" by blast
  moreover obtain r where "extract_school_data b = Inr r"
    using extract_school_data_result [of b] by blast
  ultimately show ?case by simp
qed

lemma length_pair_blocks: "length (pair_blocks bs) = (length bs + 1) div 2"
  by (induction bs rule: pair_blocks.induct) simp_all

lemma process_pdf_length:
  "length (process_pdf pages) = (length (school_blocks (join [newline] pages)) + 1) div 2"
proof -
  obtain rs where "extract_all (pair_blocks (school_blocks (join [newline] pages))) = Inr rs"
    and "length rs = length (pair_blocks (school_blocks (join [newline] pages)))"
    using extract_all_total by blast
  then show ?thesis by (simp add: process_pdf_def length_pair_blocks)
qed

text \<open>
  C1. A text with two anchors, each starting one school, gives two blocks and one record:
  the loop over the blocks joins them in pairs.
\<close>

theorem two_anchors_one_record:
  "school_blocks ''Alpha School Phone: 0712345678 Beta Academy Phone: 0722000000'' =
     [''Alpha School Phone: 0712345678 '', ''Beta Academy Phone: 0722000000''] \<and>
   process_pdf [''Alpha School Phone: 0712345678 Beta Academy Phone: 0722000000''] =
     [[(''School Name'', ''Alpha School''), (''Location'', ''NA''), (''Address'', ''NA''),
       (''City/ Town'', ''NA''), (''County'', ''NA''), (''Country'', ''NA''), (''Website'', ''NA''),
       (''Phone'', ''0712345678, 0722000000''), (''Email'', ''NA''), (''Fax'', ''NA'')]]"
  by code_simp

text \<open>
  C2. The end-to-end scenario gives three records, none of them with the name of a school
  of the text: the text is split at every capitalised word from which an anchor can be
  read (five places), and the five blocks are joined in pairs.
\<close>

theorem end_to_end_three_records:
  "school_blocks ''Alpha Boys High School Location: Kasarani Phone: 0712345678 Beta Girls Academy Phone: 712-345-678'' =
     [''Alpha '', ''Boys '', ''High School Location: Kasarani Phone: 0712345678 '', ''Beta '',
      ''Girls Academy Phone: 712-345-678''] \<and>
   process_pdf [''Alpha Boys High School Location: Kasarani Phone: 0712345678 Beta Girls Academy Phone: 712-345-678''] =
     [[(''School Name'', ''Alpha Boys''), (''Location'', ''NA''), (''Address'', ''NA''),
       (''City/ Town'', ''NA''), (''County'', ''NA''), (''Country'', ''NA''), (''Website'', ''NA''),
       (''Phone'', ''NA''), (''Email'', ''NA''), (''Fax'', ''NA'')],
      [(''School Name'', ''High School''), (''Location'', ''Kasarani''), (''Address'', ''NA''),
       (''City/ Town'', ''NA''), (''County'', ''NA''), (''Country'', ''NA''), (''Website'', ''NA''),
       (''Phone'', ''0712345678''), (''Email'', ''NA''), (''Fax'', ''NA'')],
      [(''School Name'', ''Girls Academy''), (''Location'', ''NA''), (''Address'', ''NA''),
       (''City/ Town'', ''NA''), (''County'', ''NA''), (''Country'', ''NA''), (''Website'', ''NA''),
       (''Phone'', ''0712345678''), (''Email'', ''NA''), (''Fax'', ''NA'')]]"
  by code_simp

section \<open>De-hyphenation\<close>


























end
